theory Spec2Isabelle
  imports Complex_Main "HOL-Library.Word" "HOL-Library.Sublist"
begin

section \<open>The simulation and painting kernel of cells.cpp\<close>

text \<open>
  The program is a Game of Life on a torus of fixed size, painted with the mouse and
  stepped on a timer. Its state is a handful of file-level variables; the model keeps
  them in one record and passes it through every function of the source.

  C++ \<^verbatim>\<open>int\<close> is modelled by \<open>int\<close>. In \<^verbatim>\<open>Update_Simulation\<close> every
  integer stays between \<open>-1\<close> and \<open>SIM_WIDTH\<close>, so no operation can overflow there.
\<close>

subsection \<open>Constants\<close>

definition SIM_WIDTH :: int where
  "SIM_WIDTH = 480"

definition SIM_HEIGHT :: int where
  "SIM_HEIGHT = 270"

definition RENDER_SCALE :: int where
  "RENDER_SCALE = 4"

definition MAX_STEPS_PER_SECOND :: int where
  "MAX_STEPS_PER_SECOND = 20"

subsection \<open>The global state\<close>

text \<open>
  \<^verbatim>\<open>bool currentState[SIM_WIDTH][SIM_HEIGHT]\<close> is a function from index pairs to cells.
  The code reads and writes it at indices \<open>0 \<le> x < SIM_WIDTH\<close>, \<open>0 \<le> y < SIM_HEIGHT\<close>
  only (lemma \<open>wrap_mod_gen\<close> below for the wrapped indices of the step, and the
  guard of \<^verbatim>\<open>Try_Paint_Point\<close>), and every statement about a grid speaks of those
  indices.

  \<^verbatim>\<open>SDL_FPoint renderPoints[SIM_WIDTH * SIM_HEIGHT]\<close> is a function from indices to
  points; a point is the pair of cell coordinates (the cast to \<^verbatim>\<open>float\<close> is exact on
  grid coordinates). A write at an index that is not below \<open>SIM_WIDTH * SIM_HEIGHT\<close>
  is outside the array; the model makes it the result \<open>None\<close>.

  \<^verbatim>\<open>float\<close> variables are modelled by \<open>real\<close>, the timestamp by a 64-bit word.
\<close>

type_synonym grid = "int \<Rightarrow> int \<Rightarrow> bool"

record world =
  last_step_time :: "64 word"
  steps_per_second :: real
  mouseDown :: bool
  mouseX :: real
  mouseY :: real
  lastMouseCellX :: int
  lastMouseCellY :: int
  mouseWasDown :: bool
  currentState :: grid
  nextState :: grid
  renderPoints :: "nat \<Rightarrow> int \<times> int"
  renderPointCount :: nat
  needs_new_render :: bool

definition in_bounds :: "int \<Rightarrow> int \<Rightarrow> bool" where
  "in_bounds x y \<longleftrightarrow> x \<ge> 0 \<and> y \<ge> 0 \<and> x < SIM_WIDTH \<and> y < SIM_HEIGHT"

text \<open>The Render Change Set: \<^verbatim>\<open>renderPoints[0..renderPointCount)\<close>, what the renderer draws.\<close>

definition Render_Change_Set :: "world \<Rightarrow> (int \<times> int) list" where
  "Render_Change_Set s = map (renderPoints s) [0..<renderPointCount s]"

subsection \<open>The render buffer\<close>

definition Clear_Rendered_Points :: "world \<Rightarrow> world" where
  "Clear_Rendered_Points s = s\<lparr>renderPointCount := 0\<rparr>"

definition Add_Rendered_Point :: "int \<Rightarrow> int \<Rightarrow> world \<Rightarrow> world option" where
  "Add_Rendered_Point x y s =
     (if int (renderPointCount s) < SIM_WIDTH * SIM_HEIGHT
      then Some (s\<lparr>renderPoints := (renderPoints s)(renderPointCount s := (x, y)),
                   renderPointCount := renderPointCount s + 1,
                   needs_new_render := True\<rparr>)
      else None)"

subsection \<open>Painting one cell\<close>

definition set_cell :: "grid \<Rightarrow> int \<Rightarrow> int \<Rightarrow> bool \<Rightarrow> grid" where
  "set_cell g x y v = g(x := (g x)(y := v))"

definition Try_Paint_Point :: "int \<Rightarrow> int \<Rightarrow> world \<Rightarrow> (bool \<times> world) option" where
  "Try_Paint_Point x y s =
     (if x \<ge> 0 \<and> y \<ge> 0 \<and> x < SIM_WIDTH \<and> y < SIM_HEIGHT then
        if currentState s x y = False then
          (case Add_Rendered_Point x y (s\<lparr>currentState := set_cell (currentState s) x y True\<rparr>) of
             None \<Rightarrow> None
           | Some s' \<Rightarrow> Some (True, s'))
        else Some (True, s)
      else Some (False, s))"

subsection \<open>Counting neighbours\<close>

text \<open>
  The two inner loops of \<^verbatim>\<open>Update_Simulation\<close>. The \<^verbatim>\<open>break\<close> leaves the loop over
  \<open>dy\<close> only: the loop over \<open>dx\<close> goes on with its next column.
\<close>

function neighbors_dy_loop :: "grid \<Rightarrow> int \<Rightarrow> int \<Rightarrow> int \<Rightarrow> int \<Rightarrow> int \<Rightarrow> int" where
  "neighbors_dy_loop cur y dx nx dy neighbors =
     (if dy \<le> 1 then
        if dx = 0 \<and> dy = 0 then neighbors_dy_loop cur y dx nx (dy + 1) neighbors
        else
          let ny = y + dy;
              ny = (if ny < 0 then SIM_HEIGHT - 1 else ny);
              ny = (if ny = SIM_HEIGHT then 0 else ny);
              neighbors = (if cur nx ny then neighbors + 1 else neighbors)
          in if neighbors > 3 then neighbors
             else neighbors_dy_loop cur y dx nx (dy + 1) neighbors
      else neighbors)"
  by pat_completeness auto
termination
  by (relation "measure (\<lambda>(cur, y, dx, nx, dy, neighbors). nat (2 - dy))") auto

function neighbors_dx_loop :: "grid \<Rightarrow> int \<Rightarrow> int \<Rightarrow> int \<Rightarrow> int \<Rightarrow> int" where
  "neighbors_dx_loop cur x y dx neighbors =
     (if dx \<le> 1 then
        let nx = x + dx;
            nx = (if nx < 0 then SIM_WIDTH - 1 else nx);
            nx = (if nx = SIM_WIDTH then 0 else nx)
        in neighbors_dx_loop cur x y (dx + 1) (neighbors_dy_loop cur y dx nx (- 1) neighbors)
      else neighbors)"
  by pat_completeness auto
termination
  by (relation "measure (\<lambda>(cur, x, y, dx, neighbors). nat (2 - dx))") auto

definition count_neighbors :: "grid \<Rightarrow> int \<Rightarrow> int \<Rightarrow> int" where
  "count_neighbors cur x y = neighbors_dx_loop cur x y (- 1) 0"

text \<open>
  The same two loops without the line \<^verbatim>\<open>if (neighbors > 3) break;\<close>: the exhaustive
  count over all eight neighbours, to compare with.
\<close>

function exhaustive_dy_loop :: "grid \<Rightarrow> int \<Rightarrow> int \<Rightarrow> int \<Rightarrow> int \<Rightarrow> int \<Rightarrow> int" where
  "exhaustive_dy_loop cur y dx nx dy neighbors =
     (if dy \<le> 1 then
        if dx = 0 \<and> dy = 0 then exhaustive_dy_loop cur y dx nx (dy + 1) neighbors
        else
          let ny = y + dy;
              ny = (if ny < 0 then SIM_HEIGHT - 1 else ny);
              ny = (if ny = SIM_HEIGHT then 0 else ny);
              neighbors = (if cur nx ny then neighbors + 1 else neighbors)
          in exhaustive_dy_loop cur y dx nx (dy + 1) neighbors
      else neighbors)"
  by pat_completeness auto
termination
  by (relation "measure (\<lambda>(cur, y, dx, nx, dy, neighbors). nat (2 - dy))") auto

function exhaustive_dx_loop :: "grid \<Rightarrow> int \<Rightarrow> int \<Rightarrow> int \<Rightarrow> int \<Rightarrow> int" where
  "exhaustive_dx_loop cur x y dx neighbors =
     (if dx \<le> 1 then
        let nx = x + dx;
            nx = (if nx < 0 then SIM_WIDTH - 1 else nx);
            nx = (if nx = SIM_WIDTH then 0 else nx)
        in exhaustive_dx_loop cur x y (dx + 1) (exhaustive_dy_loop cur y dx nx (- 1) neighbors)
      else neighbors)"
  by pat_completeness auto
termination
  by (relation "measure (\<lambda>(cur, x, y, dx, neighbors). nat (2 - dx))") auto

definition count_neighbors_exhaustive :: "grid \<Rightarrow> int \<Rightarrow> int \<Rightarrow> int" where
  "count_neighbors_exhaustive cur x y = exhaustive_dx_loop cur x y (- 1) 0"

subsection \<open>The step\<close>

text \<open>
  The body of the two outer loops, for one cell. The neighbour count is a parameter, so
  that the step with the early exit and the step with the exhaustive count are the same
  text; \<open>Update_Simulation\<close> is the one of the source.
\<close>

definition Update_cell :: "(grid \<Rightarrow> int \<Rightarrow> int \<Rightarrow> int) \<Rightarrow> int \<Rightarrow> int \<Rightarrow> world \<Rightarrow> world option" where
  "Update_cell cnt x y s =
     (let neighbors = cnt (currentState s) x y in
      if currentState s x y then
        if neighbors < 2 \<or> neighbors > 3 then
          Some (s\<lparr>nextState := set_cell (nextState s) x y False\<rparr>)
        else
          Add_Rendered_Point x y (s\<lparr>nextState := set_cell (nextState s) x y True\<rparr>)
      else
        if neighbors = 3 then
          Add_Rendered_Point x y (s\<lparr>nextState := set_cell (nextState s) x y True\<rparr>)
        else Some (s\<lparr>nextState := set_cell (nextState s) x y False\<rparr>))"

function Update_y_loop :: "(grid \<Rightarrow> int \<Rightarrow> int \<Rightarrow> int) \<Rightarrow> int \<Rightarrow> int \<Rightarrow> world \<Rightarrow> world option" where
  "Update_y_loop cnt x y s =
     (if y < SIM_HEIGHT then
        (case Update_cell cnt x y s of
           None \<Rightarrow> None
         | Some s' \<Rightarrow> Update_y_loop cnt x (y + 1) s')
      else Some s)"
  by pat_completeness auto
termination
  by (relation "measure (\<lambda>(cnt, x, y, s). nat (SIM_HEIGHT - y))") auto

function Update_x_loop :: "(grid \<Rightarrow> int \<Rightarrow> int \<Rightarrow> int) \<Rightarrow> int \<Rightarrow> world \<Rightarrow> world option" where
  "Update_x_loop cnt x s =
     (if x < SIM_WIDTH then
        (case Update_y_loop cnt x 0 s of
           None \<Rightarrow> None
         | Some s' \<Rightarrow> Update_x_loop cnt (x + 1) s')
      else Some s)"
  by pat_completeness auto
termination
  by (relation "measure (\<lambda>(cnt, x, s). nat (SIM_WIDTH - x))") auto

definition swap_states :: "world \<Rightarrow> world" where
  "swap_states s = s\<lparr>currentState := nextState s, nextState := currentState s\<rparr>"

definition Update_Simulation_with :: "(grid \<Rightarrow> int \<Rightarrow> int \<Rightarrow> int) \<Rightarrow> world \<Rightarrow> world option" where
  "Update_Simulation_with cnt s =
     (case Update_x_loop cnt 0 (Clear_Rendered_Points s) of
        None \<Rightarrow> None
      | Some s' \<Rightarrow> Some (swap_states s'))"

definition Update_Simulation :: "world \<Rightarrow> world option" where
  "Update_Simulation = Update_Simulation_with count_neighbors"

definition Update_Simulation_exhaustive :: "world \<Rightarrow> world option" where
  "Update_Simulation_exhaustive = Update_Simulation_with count_neighbors_exhaustive"

subsection \<open>Painting a line\<close>

text \<open>
  \<^verbatim>\<open>Paint_Line\<close> and its two Bresenham loops, as the source has them: each visited
  coordinate is handed to \<^verbatim>\<open>Try_Paint_Point\<close>. The integers are unbounded here; the
  C++ \<^verbatim>\<open>int\<close> agrees with them exactly where no value overflows, which
  \<open>Paint_Line_in_range\<close> below tests. It is so for every coordinate that comes from a
  position on a screen. What is proved of the lines the program draws is proved under
  that test; the invariants of the render buffer hold of whatever coordinates are painted.
\<close>

function Paint_Line_Shallow_loop ::
  "int \<Rightarrow> int \<Rightarrow> int \<Rightarrow> int \<Rightarrow> int \<Rightarrow> int \<Rightarrow> int \<Rightarrow> world \<Rightarrow> world option" where
  "Paint_Line_Shallow_loop x1 dx dy step x y error s =
     (if x \<le> x1 then
        (case Try_Paint_Point x y s of
           None \<Rightarrow> None
         | Some (painted, s') \<Rightarrow>
             let (y, error) = (if error > 0 then (y + step, error - 2 * dx) else (y, error));
                 error = error + 2 * dy
             in Paint_Line_Shallow_loop x1 dx dy step (x + 1) y error s')
      else Some s)"
  by pat_completeness auto
termination
  by (relation "measure (\<lambda>(x1, dx, dy, step, x, y, error, s). nat (x1 + 1 - x))") auto

definition Paint_Line_Shallow ::
  "int \<Rightarrow> int \<Rightarrow> int \<Rightarrow> int \<Rightarrow> int \<Rightarrow> int \<Rightarrow> world \<Rightarrow> world option" where
  "Paint_Line_Shallow x0 y0 x1 y1 dx dy s =
     (let step = (if y1 < y0 then - 1 else 1);
          error = 2 * dy - dx;
          y = y0
      in Paint_Line_Shallow_loop x1 dx dy step x0 y error s)"

function Paint_Line_Steep_loop ::
  "int \<Rightarrow> int \<Rightarrow> int \<Rightarrow> int \<Rightarrow> int \<Rightarrow> int \<Rightarrow> int \<Rightarrow> world \<Rightarrow> world option" where
  "Paint_Line_Steep_loop y1 dx dy step x y error s =
     (if y \<le> y1 then
        (case Try_Paint_Point x y s of
           None \<Rightarrow> None
         | Some (painted, s') \<Rightarrow>
             let (x, error) = (if error > 0 then (x + step, error - 2 * dy) else (x, error));
                 error = error + 2 * dx
             in Paint_Line_Steep_loop y1 dx dy step x (y + 1) error s')
      else Some s)"
  by pat_completeness auto
termination
  by (relation "measure (\<lambda>(y1, dx, dy, step, x, y, error, s). nat (y1 + 1 - y))") auto

definition Paint_Line_Steep ::
  "int \<Rightarrow> int \<Rightarrow> int \<Rightarrow> int \<Rightarrow> int \<Rightarrow> int \<Rightarrow> world \<Rightarrow> world option" where
  "Paint_Line_Steep x0 y0 x1 y1 dx dy s =
     (let step = (if x1 < x0 then - 1 else 1);
          error = 2 * dx - dy;
          x = x0
      in Paint_Line_Steep_loop y1 dx dy step x y0 error s)"

definition Paint_Line :: "int \<Rightarrow> int \<Rightarrow> int \<Rightarrow> int \<Rightarrow> world \<Rightarrow> world option" where
  "Paint_Line x0 y0 x1 y1 s =
     (let dx = \<bar>x1 - x0\<bar>;
          dy = \<bar>y1 - y0\<bar>
      in if dy \<le> dx then
           if x0 \<le> x1 then Paint_Line_Shallow x0 y0 x1 y1 dx dy s
           else Paint_Line_Shallow x1 y1 x0 y0 dx dy s
         else
           if y0 \<le> y1 then Paint_Line_Steep x0 y0 x1 y1 dx dy s
           else Paint_Line_Steep x1 y1 x0 y0 dx dy s)"

text \<open>
  The coordinates these loops hand to \<^verbatim>\<open>Try_Paint_Point\<close>: the same loops with the call
  replaced by recording its arguments, on the same unbounded integers. Lemma
  \<open>Paint_Line_paint_points\<close> below ties the two together.
\<close>

function Shallow_visits :: "int \<Rightarrow> int \<Rightarrow> int \<Rightarrow> int \<Rightarrow> int \<Rightarrow> int \<Rightarrow> int \<Rightarrow> (int \<times> int) list" where
  "Shallow_visits x1 dx dy step x y error =
     (if x \<le> x1 then
        (x, y) #
          (let (y, error) = (if error > 0 then (y + step, error - 2 * dx) else (y, error));
               error = error + 2 * dy
           in Shallow_visits x1 dx dy step (x + 1) y error)
      else [])"
  by pat_completeness auto
termination
  by (relation "measure (\<lambda>(x1, dx, dy, step, x, y, error). nat (x1 + 1 - x))") auto

definition Paint_Line_Shallow_visits ::
  "int \<Rightarrow> int \<Rightarrow> int \<Rightarrow> int \<Rightarrow> int \<Rightarrow> int \<Rightarrow> (int \<times> int) list" where
  "Paint_Line_Shallow_visits x0 y0 x1 y1 dx dy =
     (let step = (if y1 < y0 then - 1 else 1);
          error = 2 * dy - dx;
          y = y0
      in Shallow_visits x1 dx dy step x0 y error)"

function Steep_visits :: "int \<Rightarrow> int \<Rightarrow> int \<Rightarrow> int \<Rightarrow> int \<Rightarrow> int \<Rightarrow> int \<Rightarrow> (int \<times> int) list" where
  "Steep_visits y1 dx dy step x y error =
     (if y \<le> y1 then
        (x, y) #
          (let (x, error) = (if error > 0 then (x + step, error - 2 * dy) else (x, error));
               error = error + 2 * dx
           in Steep_visits y1 dx dy step x (y + 1) error)
      else [])"
  by pat_completeness auto
termination
  by (relation "measure (\<lambda>(y1, dx, dy, step, x, y, error). nat (y1 + 1 - y))") auto

definition Paint_Line_Steep_visits ::
  "int \<Rightarrow> int \<Rightarrow> int \<Rightarrow> int \<Rightarrow> int \<Rightarrow> int \<Rightarrow> (int \<times> int) list" where
  "Paint_Line_Steep_visits x0 y0 x1 y1 dx dy =
     (let step = (if x1 < x0 then - 1 else 1);
          error = 2 * dx - dy;
          x = x0
      in Steep_visits y1 dx dy step x y0 error)"

definition Paint_Line_visits :: "int \<Rightarrow> int \<Rightarrow> int \<Rightarrow> int \<Rightarrow> (int \<times> int) list" where
  "Paint_Line_visits x0 y0 x1 y1 =
     (let dx = \<bar>x1 - x0\<bar>;
          dy = \<bar>y1 - y0\<bar>
      in if dy \<le> dx then
           if x0 \<le> x1 then Paint_Line_Shallow_visits x0 y0 x1 y1 dx dy
           else Paint_Line_Shallow_visits x1 y1 x0 y0 dx dy
         else
           if y0 \<le> y1 then Paint_Line_Steep_visits x0 y0 x1 y1 dx dy
           else Paint_Line_Steep_visits x1 y1 x0 y0 dx dy)"

text \<open>Painting a list of coordinates in order, one \<^verbatim>\<open>Try_Paint_Point\<close> each.\<close>

fun paint_points :: "(int \<times> int) list \<Rightarrow> world \<Rightarrow> world option" where
  "paint_points [] s = Some s"
| "paint_points ((x, y) # ps) s =
     (case Try_Paint_Point x y s of None \<Rightarrow> None | Some (painted, s') \<Rightarrow> paint_points ps s')"

text \<open>
  Every value \<^verbatim>\<open>Paint_Line\<close> computes, its arguments included, tested against the range
  of a 32-bit \<^verbatim>\<open>int\<close>: the differences and absolute values, the initial error, and in each turn of
  a loop the stepped minor coordinate, the doubled differences, the error before and after
  its update and the incremented loop variable. Lemma \<open>Paint_Line_in_range_bounded\<close>
  shows that all of them fit when the four coordinates are at most \<open>2^28\<close> in absolute
  value; there the unbounded integers of the model are the integers of the program.
\<close>

definition int_fits :: "int \<Rightarrow> bool" where
  "int_fits v \<longleftrightarrow> - 2147483648 \<le> v \<and> v \<le> 2147483647"

function Shallow_in_range :: "int \<Rightarrow> int \<Rightarrow> int \<Rightarrow> int \<Rightarrow> int \<Rightarrow> int \<Rightarrow> int \<Rightarrow> bool" where
  "Shallow_in_range x1 dx dy step x y error =
     (if x \<le> x1 then
        (if error > 0
         then int_fits (y + step) \<and> int_fits (2 * dx) \<and> int_fits (error - 2 * dx)
         else True) \<and>
        int_fits (2 * dy) \<and>
        (let (y, error) = (if error > 0 then (y + step, error - 2 * dx) else (y, error));
             error = error + 2 * dy
         in int_fits error \<and> int_fits (x + 1) \<and> Shallow_in_range x1 dx dy step (x + 1) y error)
      else True)"
  by pat_completeness auto
termination
  by (relation "measure (\<lambda>(x1, dx, dy, step, x, y, error). nat (x1 + 1 - x))") auto

function Steep_in_range :: "int \<Rightarrow> int \<Rightarrow> int \<Rightarrow> int \<Rightarrow> int \<Rightarrow> int \<Rightarrow> int \<Rightarrow> bool" where
  "Steep_in_range y1 dx dy step x y error =
     (if y \<le> y1 then
        (if error > 0
         then int_fits (x + step) \<and> int_fits (2 * dy) \<and> int_fits (error - 2 * dy)
         else True) \<and>
        int_fits (2 * dx) \<and>
        (let (x, error) = (if error > 0 then (x + step, error - 2 * dy) else (x, error));
             error = error + 2 * dx
         in int_fits error \<and> int_fits (y + 1) \<and> Steep_in_range y1 dx dy step x (y + 1) error)
      else True)"
  by pat_completeness auto
termination
  by (relation "measure (\<lambda>(y1, dx, dy, step, x, y, error). nat (y1 + 1 - y))") auto

definition Paint_Line_Shallow_in_range :: "int \<Rightarrow> int \<Rightarrow> int \<Rightarrow> int \<Rightarrow> int \<Rightarrow> int \<Rightarrow> bool" where
  "Paint_Line_Shallow_in_range x0 y0 x1 y1 dx dy \<longleftrightarrow>
     int_fits (2 * dy) \<and> int_fits (2 * dy - dx) \<and>
     Shallow_in_range x1 dx dy (if y1 < y0 then - 1 else 1) x0 y0 (2 * dy - dx)"

definition Paint_Line_Steep_in_range :: "int \<Rightarrow> int \<Rightarrow> int \<Rightarrow> int \<Rightarrow> int \<Rightarrow> int \<Rightarrow> bool" where
  "Paint_Line_Steep_in_range x0 y0 x1 y1 dx dy \<longleftrightarrow>
     int_fits (2 * dx) \<and> int_fits (2 * dx - dy) \<and>
     Steep_in_range y1 dx dy (if x1 < x0 then - 1 else 1) x0 y0 (2 * dx - dy)"

definition Paint_Line_in_range :: "int \<Rightarrow> int \<Rightarrow> int \<Rightarrow> int \<Rightarrow> bool" where
  "Paint_Line_in_range x0 y0 x1 y1 \<longleftrightarrow>
     int_fits x0 \<and> int_fits y0 \<and> int_fits x1 \<and> int_fits y1 \<and>
     int_fits (x1 - x0) \<and> int_fits \<bar>x1 - x0\<bar> \<and> int_fits (y1 - y0) \<and> int_fits \<bar>y1 - y0\<bar> \<and>
     (let dx = \<bar>x1 - x0\<bar>;
          dy = \<bar>y1 - y0\<bar>
      in if dy \<le> dx then
           if x0 \<le> x1 then Paint_Line_Shallow_in_range x0 y0 x1 y1 dx dy
           else Paint_Line_Shallow_in_range x1 y1 x0 y0 dx dy
         else
           if y0 \<le> y1 then Paint_Line_Steep_in_range x0 y0 x1 y1 dx dy
           else Paint_Line_Steep_in_range x1 y1 x0 y0 dx dy)"

text \<open>
  The coordinates the program visits for a line between two \<^verbatim>\<open>int\<close> end points. Where
  every value fits, they are the coordinates recorded by \<open>Paint_Line_visits\<close>. Where a
  value does not fit, the C++ program has a signed overflow, its behaviour is undefined and
  there is no sequence to speak of: the result is \<open>None\<close>. This happens, for one, whenever
  the end of the loop variable's range is \<^verbatim>\<open>INT_MAX\<close>: the test \<^verbatim>\<open>x <= x1\<close> cannot fail,
  and \<^verbatim>\<open>x++\<close> overflows after the last coordinate.
\<close>

definition Paint_Line_visits_int32 :: "int \<Rightarrow> int \<Rightarrow> int \<Rightarrow> int \<Rightarrow> (int \<times> int) list option" where
  "Paint_Line_visits_int32 x0 y0 x1 y1 =
     (if Paint_Line_in_range x0 y0 x1 y1 then Some (Paint_Line_visits x0 y0 x1 y1) else None)"

subsection \<open>Events and the frame tick\<close>

text \<open>
  The events \<^verbatim>\<open>SDL_AppEvent\<close> looks at, with the fields it reads. A wheel event
  carries \<^verbatim>\<open>wheel.y\<close>, a button event the button and the position.
\<close>

datatype SDL_AppResult = SDL_APP_CONTINUE | SDL_APP_SUCCESS | SDL_APP_FAILURE

datatype SDL_Event =
    SDL_EVENT_QUIT
  | SDL_EVENT_MOUSE_WHEEL real
  | SDL_EVENT_MOUSE_BUTTON_DOWN nat real real
  | SDL_EVENT_MOUSE_MOTION real real
  | SDL_EVENT_MOUSE_BUTTON_UP nat
  | SDL_EVENT_OTHER

fun SDL_AppEvent :: "SDL_Event \<Rightarrow> world \<Rightarrow> SDL_AppResult \<times> world" where
  "SDL_AppEvent SDL_EVENT_QUIT s = (SDL_APP_SUCCESS, s)"
| "SDL_AppEvent (SDL_EVENT_MOUSE_WHEEL delta) s =
     (let s = s\<lparr>steps_per_second := steps_per_second s + delta\<rparr>;
          s = (if steps_per_second s < 0 then s\<lparr>steps_per_second := 0\<rparr> else s);
          s = (if steps_per_second s > real_of_int MAX_STEPS_PER_SECOND
               then s\<lparr>steps_per_second := real_of_int MAX_STEPS_PER_SECOND\<rparr> else s)
      in (SDL_APP_CONTINUE, s))"
| "SDL_AppEvent (SDL_EVENT_MOUSE_BUTTON_DOWN button x y) s =
     (if button = 1 then (SDL_APP_CONTINUE, s\<lparr>mouseDown := True, mouseX := x, mouseY := y\<rparr>)
      else (SDL_APP_CONTINUE, s))"
| "SDL_AppEvent (SDL_EVENT_MOUSE_MOTION x y) s =
     (if mouseDown s then (SDL_APP_CONTINUE, s\<lparr>mouseX := x, mouseY := y\<rparr>)
      else (SDL_APP_CONTINUE, s))"
| "SDL_AppEvent (SDL_EVENT_MOUSE_BUTTON_UP button) s =
     (if button = 1 then (SDL_APP_CONTINUE, s\<lparr>mouseDown := False\<rparr>)
      else (SDL_APP_CONTINUE, s))"
| "SDL_AppEvent SDL_EVENT_OTHER s = (SDL_APP_CONTINUE, s)"

text \<open>The cast \<^verbatim>\<open>(int)\<close> of a \<^verbatim>\<open>float\<close> truncates towards zero.\<close>

definition float_to_int :: "real \<Rightarrow> int" where
  "float_to_int r = (if 0 \<le> r then \<lfloor>r\<rfloor> else \<lceil>r\<rceil>)"

definition PaintCells :: "world \<Rightarrow> world option" where
  "PaintCells s =
     (case
        (if mouseDown s then
           let mouseCellX = float_to_int (mouseX s / real_of_int RENDER_SCALE);
               mouseCellY = float_to_int (mouseY s / real_of_int RENDER_SCALE)
           in (case
                 (if mouseWasDown s
                  then Paint_Line (lastMouseCellX s) (lastMouseCellY s) mouseCellX mouseCellY s
                  else map_option snd (Try_Paint_Point mouseCellX mouseCellY s))
               of None \<Rightarrow> None
                | Some s' \<Rightarrow> Some (s'\<lparr>lastMouseCellX := mouseCellX, lastMouseCellY := mouseCellY\<rparr>))
         else Some s)
      of None \<Rightarrow> None
       | Some s' \<Rightarrow> Some (s'\<lparr>mouseWasDown := mouseDown s'\<rparr>))"

text \<open>
  \<^verbatim>\<open>SDL_AppIterate\<close>. The clock value \<^verbatim>\<open>SDL_GetTicks()\<close> is the argument \<open>now\<close>. The
  function the tick calls to step the simulation is a parameter: the tick of the source
  is \<open>SDL_AppIterate\<close>, with \<open>Update_Simulation\<close>, and a tick that gives the same
  result for every such function has not called it. The draw calls are outside the
  model; what is left of the last block is the reset of \<^verbatim>\<open>needs_new_render\<close>.
\<close>

definition SDL_AppIterate_with :: "(world \<Rightarrow> world option) \<Rightarrow> 64 word \<Rightarrow> world \<Rightarrow> world option" where
  "SDL_AppIterate_with step now s =
     (case PaintCells s of
        None \<Rightarrow> None
      | Some s \<Rightarrow>
          (case
             (if steps_per_second s > 0 then
                let elapsed = real (unat (now - last_step_time s)) / 1000;
                    seconds_per_step = 1 / steps_per_second s
                in if elapsed \<ge> seconds_per_step then
                     (case step s of
                        None \<Rightarrow> None
                      | Some s' \<Rightarrow> Some (s'\<lparr>last_step_time := now\<rparr>))
                   else Some s
              else Some s)
           of None \<Rightarrow> None
            | Some s \<Rightarrow>
                Some (if needs_new_render s then s\<lparr>needs_new_render := False\<rparr> else s)))"

definition SDL_AppIterate :: "64 word \<Rightarrow> world \<Rightarrow> world option" where
  "SDL_AppIterate = SDL_AppIterate_with Update_Simulation"

subsection \<open>Start and runs\<close>

text \<open>
  The state when the callbacks start: the file-level variables are zero-initialised or
  have their initialiser, and \<^verbatim>\<open>SDL_AppInit\<close> has stored the clock in
  \<^verbatim>\<open>last_step_time\<close>.
\<close>

definition init_world :: "64 word \<Rightarrow> world" where
  "init_world now =
     \<lparr>last_step_time = now, steps_per_second = 0, mouseDown = False, mouseX = 0, mouseY = 0,
      lastMouseCellX = 0, lastMouseCellY = 0, mouseWasDown = False,
      currentState = (\<lambda>x y. False), nextState = (\<lambda>x y. False),
      renderPoints = (\<lambda>i. (0, 0)), renderPointCount = 0, needs_new_render = True\<rparr>"

text \<open>
  A run is a list of inputs: the events and frame ticks SDL delivers, and, to cover
  every interleaving of the operations on the grid, direct calls of
  \<^verbatim>\<open>Try_Paint_Point\<close>, \<^verbatim>\<open>Paint_Line\<close> and the step. A quit event ends the run.
\<close>

datatype input =
    Event SDL_Event
  | Frame "64 word"
  | Paint int int
  | Line int int int int
  | Step

fun run_with :: "(world \<Rightarrow> world option) \<Rightarrow> input list \<Rightarrow> world \<Rightarrow> world option" where
  "run_with step [] s = Some s"
| "run_with step (Event e # ins) s =
     (case SDL_AppEvent e s of
        (SDL_APP_CONTINUE, s') \<Rightarrow> run_with step ins s'
      | (_, s') \<Rightarrow> Some s')"
| "run_with step (Frame now # ins) s =
     (case SDL_AppIterate_with step now s of None \<Rightarrow> None | Some s' \<Rightarrow> run_with step ins s')"
| "run_with step (Paint x y # ins) s =
     (case Try_Paint_Point x y s of None \<Rightarrow> None | Some (painted, s') \<Rightarrow> run_with step ins s')"
| "run_with step (Line x0 y0 x1 y1 # ins) s =
     (case Paint_Line x0 y0 x1 y1 s of None \<Rightarrow> None | Some s' \<Rightarrow> run_with step ins s')"
| "run_with step (Step # ins) s =
     (case step s of None \<Rightarrow> None | Some s' \<Rightarrow> run_with step ins s')"

definition run :: "input list \<Rightarrow> world \<Rightarrow> world option" where
  "run = run_with Update_Simulation"

text \<open>Inputs that leave a rate of 0 at 0 and do not call the step directly.\<close>

fun keeps_paused :: "input \<Rightarrow> bool" where
  "keeps_paused (Event (SDL_EVENT_MOUSE_WHEEL delta)) = (delta \<le> 0)"
| "keeps_paused (Event e) = True"
| "keeps_paused (Frame now) = True"
| "keeps_paused (Paint x y) = True"
| "keeps_paused (Line x0 y0 x1 y1) = True"
| "keeps_paused Step = False"

section \<open>Notions of the specification\<close>

text \<open>
  The eight neighbours of a cell on the torus, by the specification's formula: each
  coordinate moved by -1, 0 or 1 and reduced modulo the size of its axis, the cell itself
  left out.
\<close>

definition torus_neighbors :: "int \<Rightarrow> int \<Rightarrow> (int \<times> int) list" where
  "torus_neighbors x y =
     concat (map (\<lambda>dx. concat (map (\<lambda>dy. if dx = 0 \<and> dy = 0 then []
                                           else [((x + dx) mod SIM_WIDTH, (y + dy) mod SIM_HEIGHT)])
                                   [- 1, 0, 1]))
                 [- 1, 0, 1])"

definition live_neighbors :: "grid \<Rightarrow> int \<Rightarrow> int \<Rightarrow> nat" where
  "live_neighbors cur x y = length (filter (\<lambda>(a, b). cur a b) (torus_neighbors x y))"

text \<open>The transition rule, as the two branches of the source apply it to a neighbour count.\<close>

definition life_rule :: "bool \<Rightarrow> int \<Rightarrow> bool" where
  "life_rule alive n = (if alive then \<not> (n < 2 \<or> n > 3) else n = 3)"

definition next_cell :: "(grid \<Rightarrow> int \<Rightarrow> int \<Rightarrow> int) \<Rightarrow> grid \<Rightarrow> int \<Rightarrow> int \<Rightarrow> bool" where
  "next_cell cnt cur x y = life_rule (cur x y) (cnt cur x y)"

text \<open>The cells in the order the step visits them: \<open>x\<close> outside, \<open>y\<close> inside.\<close>

definition column_cells :: "int \<Rightarrow> (int \<times> int) list" where
  "column_cells x = map (Pair x) [0..SIM_HEIGHT - 1]"

definition all_cells :: "(int \<times> int) list" where
  "all_cells = concat (map column_cells [0..SIM_WIDTH - 1])"

text \<open>The body of the step over a list of cells: what the two outer loops unfold to.\<close>

fun Update_cells :: "(grid \<Rightarrow> int \<Rightarrow> int \<Rightarrow> int) \<Rightarrow> (int \<times> int) list \<Rightarrow> world \<Rightarrow> world option" where
  "Update_cells cnt [] s = Some s"
| "Update_cells cnt ((x, y) # cs) s =
     (case Update_cell cnt x y s of None \<Rightarrow> None | Some s' \<Rightarrow> Update_cells cnt cs s')"

text \<open>A grid given by the list of its live cells, for concrete inputs.\<close>

definition grid_of :: "(int \<times> int) list \<Rightarrow> grid" where
  "grid_of cells = (\<lambda>x y. (x, y) \<in> set cells)"

text \<open>Consecutive coordinates differ by at most 1 in each axis.\<close>

fun no_gaps :: "(int \<times> int) list \<Rightarrow> bool" where
  "no_gaps [] = True"
| "no_gaps [p] = True"
| "no_gaps (p # q # ps) =
     (\<bar>fst q - fst p\<bar> \<le> 1 \<and> \<bar>snd q - snd p\<bar> \<le> 1 \<and> no_gaps (q # ps))"

text \<open>
  The invariant of the render buffer: the Render Change Set lists exactly the live cells
  of the grid, each once. And the bounds of the rate.
\<close>

definition render_inv :: "world \<Rightarrow> bool" where
  "render_inv s \<longleftrightarrow>
     distinct (Render_Change_Set s) \<and>
     set (Render_Change_Set s) = {(x, y). in_bounds x y \<and> currentState s x y}"

definition rate_inv :: "world \<Rightarrow> bool" where
  "rate_inv s \<longleftrightarrow>
     0 \<le> steps_per_second s \<and> steps_per_second s \<le> real_of_int MAX_STEPS_PER_SECOND"

definition world_inv :: "world \<Rightarrow> bool" where
  "world_inv s \<longleftrightarrow> render_inv s \<and> rate_inv s"

declare neighbors_dy_loop.simps [simp del]
declare neighbors_dx_loop.simps [simp del]
declare exhaustive_dy_loop.simps [simp del]
declare exhaustive_dx_loop.simps [simp del]
declare Update_y_loop.simps [simp del]
declare Update_x_loop.simps [simp del]
declare Paint_Line_Shallow_loop.simps [simp del]
declare Paint_Line_Steep_loop.simps [simp del]
declare Shallow_visits.simps [simp del]
declare Steep_visits.simps [simp del]
declare Shallow_in_range.simps [simp del]
declare Steep_in_range.simps [simp del]

section \<open>The neighbour count\<close>

text \<open>
  The wrap of the source, two tests on \<open>x + dx\<close>, is reduction modulo the width for a
  column of the grid and a step of -1, 0 or 1; so every index the count reads is inside
  the array.
\<close>

lemma SIM_WIDTH_pos: "0 < SIM_WIDTH" by (simp add: SIM_WIDTH_def)

lemma SIM_HEIGHT_pos: "0 < SIM_HEIGHT" by (simp add: SIM_HEIGHT_def)

lemma wrap_mod_gen:
  fixes w :: int
  assumes "0 < w" "0 \<le> x" "x < w" "d = - 1 \<or> d = 0 \<or> d = 1"
  shows "(let n = x + d; n = (if n < 0 then w - 1 else n) in if n = w then 0 else n) = (x + d) mod w"
proof -
  consider "x + d < 0" | "x + d = w" | "0 \<le> x + d" "x + d < w" using assms by linarith
  then show ?thesis
  proof cases
    case 1
    then have "x + d = - 1" using assms by linarith
    then show ?thesis using assms by (simp add: Let_def zmod_minus1)
  next
    case 2
    then show ?thesis using assms by (simp add: Let_def)
  next
    case 3
    then show ?thesis using assms by (simp add: Let_def)
  qed
qed

lemma exhaustive_dy_stop: "1 < dy \<Longrightarrow> exhaustive_dy_loop cur y dx nx dy n = n"
  by (simp add: exhaustive_dy_loop.simps [of cur y dx nx dy n])

lemma exhaustive_dy_step:
  assumes "dy = - 1 \<or> dy = 0 \<or> dy = 1" "0 \<le> y" "y < SIM_HEIGHT"
  shows "exhaustive_dy_loop cur y dx nx dy n =
     exhaustive_dy_loop cur y dx nx (dy + 1)
       (if dx = 0 \<and> dy = 0 then n else if cur nx ((y + dy) mod SIM_HEIGHT) then n + 1 else n)"
proof -
  have w: "(let ny = y + dy; ny = (if ny < 0 then SIM_HEIGHT - 1 else ny) in if ny = SIM_HEIGHT then 0 else ny) = (y + dy) mod SIM_HEIGHT"
    by (rule wrap_mod_gen) (use assms SIM_HEIGHT_pos in auto)
  have le: "dy \<le> 1" using assms by auto
  show ?thesis
    using w le by (simp add: exhaustive_dy_loop.simps [of cur y dx nx dy n] Let_def)
qed

lemma exhaustive_dy_unfold:
  assumes "0 \<le> y" "y < SIM_HEIGHT"
  shows "exhaustive_dy_loop cur y dx nx (- 1) n =
     n + (if cur nx ((y - 1) mod SIM_HEIGHT) then 1 else 0)
       + (if dx = 0 then 0 else if cur nx (y mod SIM_HEIGHT) then 1 else 0)
       + (if cur nx ((y + 1) mod SIM_HEIGHT) then 1 else 0)"
  using assms
  by (simp add: exhaustive_dy_step [of "- 1"] exhaustive_dy_step [of 0] exhaustive_dy_step [of 1]
        exhaustive_dy_stop)

lemma neighbors_dy_stop: "1 < dy \<Longrightarrow> neighbors_dy_loop cur y dx nx dy n = n"
  by (simp add: neighbors_dy_loop.simps [of cur y dx nx dy n])

lemma neighbors_dy_step:
  assumes "dy = - 1 \<or> dy = 0 \<or> dy = 1" "0 \<le> y" "y < SIM_HEIGHT"
  shows "neighbors_dy_loop cur y dx nx dy n =
     (if dx = 0 \<and> dy = 0 then neighbors_dy_loop cur y dx nx (dy + 1) n
      else let n' = (if cur nx ((y + dy) mod SIM_HEIGHT) then n + 1 else n)
           in if n' > 3 then n' else neighbors_dy_loop cur y dx nx (dy + 1) n')"
proof -
  have w: "(let ny = y + dy; ny = (if ny < 0 then SIM_HEIGHT - 1 else ny) in if ny = SIM_HEIGHT then 0 else ny) = (y + dy) mod SIM_HEIGHT"
    by (rule wrap_mod_gen) (use assms SIM_HEIGHT_pos in auto)
  have le: "dy \<le> 1" using assms by auto
  show ?thesis
    using w le by (simp add: neighbors_dy_loop.simps [of cur y dx nx dy n] Let_def)
qed

lemma neighbors_dy_sat:
  assumes "0 \<le> y" "y < SIM_HEIGHT"
  shows "min 4 (neighbors_dy_loop cur y dx nx (- 1) n) = min 4 (exhaustive_dy_loop cur y dx nx (- 1) n)"
  using assms
  by (simp add: exhaustive_dy_unfold neighbors_dy_step [of "- 1"] neighbors_dy_step [of 0]
        neighbors_dy_step [of 1] neighbors_dy_stop Let_def)

lemma exhaustive_dx_stop: "1 < dx \<Longrightarrow> exhaustive_dx_loop cur x y dx n = n"
  by (simp add: exhaustive_dx_loop.simps [of cur x y dx n])

lemma exhaustive_dx_step:
  assumes "dx = - 1 \<or> dx = 0 \<or> dx = 1" "0 \<le> x" "x < SIM_WIDTH"
  shows "exhaustive_dx_loop cur x y dx n =
     exhaustive_dx_loop cur x y (dx + 1) (exhaustive_dy_loop cur y dx ((x + dx) mod SIM_WIDTH) (- 1) n)"
proof -
  have w: "(let nx = x + dx; nx = (if nx < 0 then SIM_WIDTH - 1 else nx) in if nx = SIM_WIDTH then 0 else nx) = (x + dx) mod SIM_WIDTH"
    by (rule wrap_mod_gen) (use assms SIM_WIDTH_pos in auto)
  have le: "dx \<le> 1" using assms by auto
  show ?thesis
    using w le by (simp add: exhaustive_dx_loop.simps [of cur x y dx n] Let_def)
qed

lemma neighbors_dx_stop: "1 < dx \<Longrightarrow> neighbors_dx_loop cur x y dx n = n"
  by (simp add: neighbors_dx_loop.simps [of cur x y dx n])

lemma neighbors_dx_step:
  assumes "dx = - 1 \<or> dx = 0 \<or> dx = 1" "0 \<le> x" "x < SIM_WIDTH"
  shows "neighbors_dx_loop cur x y dx n =
     neighbors_dx_loop cur x y (dx + 1) (neighbors_dy_loop cur y dx ((x + dx) mod SIM_WIDTH) (- 1) n)"
proof -
  have w: "(let nx = x + dx; nx = (if nx < 0 then SIM_WIDTH - 1 else nx) in if nx = SIM_WIDTH then 0 else nx) = (x + dx) mod SIM_WIDTH"
    by (rule wrap_mod_gen) (use assms SIM_WIDTH_pos in auto)
  have le: "dx \<le> 1" using assms by auto
  show ?thesis
    using w le by (simp add: neighbors_dx_loop.simps [of cur x y dx n] Let_def)
qed

lemma count_neighbors_exhaustive_eq:
  assumes "in_bounds x y"
  shows "count_neighbors_exhaustive cur x y = int (live_neighbors cur x y)"
  using assms
  by (simp add: count_neighbors_exhaustive_def live_neighbors_def torus_neighbors_def in_bounds_def
        exhaustive_dx_step [of "- 1"] exhaustive_dx_step [of 0] exhaustive_dx_step [of 1]
        exhaustive_dx_stop exhaustive_dy_unfold)

lemma exhaustive_dy_shift:
  assumes "0 \<le> y" "y < SIM_HEIGHT" "min 4 n = min 4 m"
  shows "min 4 (exhaustive_dy_loop cur y dx nx (- 1) n) = min 4 (exhaustive_dy_loop cur y dx nx (- 1) m)"
  using assms by (simp add: exhaustive_dy_unfold min_def split: if_splits)

lemma count_neighbors_sat:
  assumes "in_bounds x y"
  shows "min 4 (count_neighbors cur x y) = min 4 (count_neighbors_exhaustive cur x y)"
proof -
  have y: "0 \<le> y" "y < SIM_HEIGHT" and x: "0 \<le> x" "x < SIM_WIDTH"
    using assms by (auto simp: in_bounds_def)
  let ?a = "(x + - 1) mod SIM_WIDTH" and ?b = "(x + 0) mod SIM_WIDTH" and ?c = "(x + 1) mod SIM_WIDTH"
  let ?n1 = "neighbors_dy_loop cur y (- 1) ?a (- 1) 0"
  let ?e1 = "exhaustive_dy_loop cur y (- 1) ?a (- 1) 0"
  let ?n2 = "neighbors_dy_loop cur y 0 ?b (- 1) ?n1"
  let ?e2 = "exhaustive_dy_loop cur y 0 ?b (- 1) ?e1"
  let ?n3 = "neighbors_dy_loop cur y 1 ?c (- 1) ?n2"
  let ?e3 = "exhaustive_dy_loop cur y 1 ?c (- 1) ?e2"
  have 1: "min 4 ?n1 = min 4 ?e1" by (rule neighbors_dy_sat [OF y])
  have "min 4 ?n2 = min 4 (exhaustive_dy_loop cur y 0 ?b (- 1) ?n1)" by (rule neighbors_dy_sat [OF y])
  also have "\<dots> = min 4 ?e2" by (rule exhaustive_dy_shift [OF y 1])
  finally have 2: "min 4 ?n2 = min 4 ?e2" .
  have "min 4 ?n3 = min 4 (exhaustive_dy_loop cur y 1 ?c (- 1) ?n2)" by (rule neighbors_dy_sat [OF y])
  also have "\<dots> = min 4 ?e3" by (rule exhaustive_dy_shift [OF y 2])
  finally have 3: "min 4 ?n3 = min 4 ?e3" .
  have n: "count_neighbors cur x y = ?n3"
    using x by (simp add: count_neighbors_def neighbors_dx_step [of "- 1"] neighbors_dx_step [of 0]
        neighbors_dx_step [of 1] neighbors_dx_stop)
  have e: "count_neighbors_exhaustive cur x y = ?e3"
    using x by (simp add: count_neighbors_exhaustive_def exhaustive_dx_step [of "- 1"]
        exhaustive_dx_step [of 0] exhaustive_dx_step [of 1] exhaustive_dx_stop)
  show ?thesis using 3 n e by simp
qed

lemma life_rule_sat: "life_rule a n = life_rule a (min 4 n)"
  by (auto simp: life_rule_def min_def)

lemma life_rule_count:
  assumes "in_bounds x y"
  shows "life_rule a (count_neighbors cur x y) = life_rule a (int (live_neighbors cur x y))"
  by (metis life_rule_sat count_neighbors_sat [OF assms] count_neighbors_exhaustive_eq [OF assms])

lemma min4_eq_1: "min 4 (n::int) = min 4 1 \<Longrightarrow> n = 1"
  by (simp add: min_def split: if_splits)

lemma torus_neighbors_in_bounds:
  assumes "(a, b) \<in> set (torus_neighbors x y)"
  shows "in_bounds a b"
proof -
  have "0 \<le> k mod SIM_WIDTH \<and> k mod SIM_WIDTH < SIM_WIDTH" for k
    using SIM_WIDTH_pos by simp
  moreover have "0 \<le> k mod SIM_HEIGHT \<and> k mod SIM_HEIGHT < SIM_HEIGHT" for k
    using SIM_HEIGHT_pos by simp
  ultimately show ?thesis
    using assms by (auto simp: torus_neighbors_def in_bounds_def split: if_splits)
qed

lemma live_neighbors_cong:
  assumes "\<And>a b. in_bounds a b \<Longrightarrow> g a b = h a b"
  shows "live_neighbors g x y = live_neighbors h x y"
proof -
  have "filter (\<lambda>(a, b). g a b) (torus_neighbors x y) = filter (\<lambda>(a, b). h a b) (torus_neighbors x y)"
    by (rule filter_cong) (auto dest: torus_neighbors_in_bounds simp: assms)
  then show ?thesis by (simp add: live_neighbors_def)
qed

text \<open>
  Claim C2. For a cell of the grid, the neighbours \<^verbatim>\<open>Update_Simulation\<close> counts are
  the eight cells at \<open>x\<plusminus>1\<close> and \<open>y\<plusminus>1\<close>, each axis wrapped on its own: the exhaustive
  count is the number of live cells among \<open>torus_neighbors x y\<close>, and the count with
  the early exit agrees with it up to 4 (where it stops counting). The cell (0, 0) is
  among the neighbours of the three opposite corners, and when it is the only live cell
  each of them counts exactly one neighbour.
\<close>

theorem count_neighbors_torus:
  assumes "in_bounds x y"
  shows "count_neighbors_exhaustive cur x y = int (live_neighbors cur x y) \<and>
         min 4 (count_neighbors cur x y) = min 4 (int (live_neighbors cur x y)) \<and>
         (0, 0) \<in> set (torus_neighbors (SIM_WIDTH - 1) 0) \<and>
         (0, 0) \<in> set (torus_neighbors 0 (SIM_HEIGHT - 1)) \<and>
         (0, 0) \<in> set (torus_neighbors (SIM_WIDTH - 1) (SIM_HEIGHT - 1)) \<and>
         count_neighbors (grid_of [(0, 0)]) (SIM_WIDTH - 1) 0 = 1 \<and>
         count_neighbors (grid_of [(0, 0)]) 0 (SIM_HEIGHT - 1) = 1 \<and>
         count_neighbors (grid_of [(0, 0)]) (SIM_WIDTH - 1) (SIM_HEIGHT - 1) = 1"
proof -
  have sat: "min 4 (count_neighbors g a b) = min 4 (int (live_neighbors g a b))"
    if "in_bounds a b" for g a b
    using count_neighbors_sat [OF that] count_neighbors_exhaustive_eq [OF that] by simp
  have b1: "in_bounds (SIM_WIDTH - 1) 0" and b2: "in_bounds 0 (SIM_HEIGHT - 1)"
    and b3: "in_bounds (SIM_WIDTH - 1) (SIM_HEIGHT - 1)"
    by (simp_all add: in_bounds_def SIM_WIDTH_def SIM_HEIGHT_def)
  have l1: "live_neighbors (grid_of [(0, 0)]) (SIM_WIDTH - 1) 0 = 1"
    by (simp add: live_neighbors_def torus_neighbors_def grid_of_def SIM_WIDTH_def SIM_HEIGHT_def)
  have l2: "live_neighbors (grid_of [(0, 0)]) 0 (SIM_HEIGHT - 1) = 1"
    by (simp add: live_neighbors_def torus_neighbors_def grid_of_def SIM_WIDTH_def SIM_HEIGHT_def)
  have l3: "live_neighbors (grid_of [(0, 0)]) (SIM_WIDTH - 1) (SIM_HEIGHT - 1) = 1"
    by (simp add: live_neighbors_def torus_neighbors_def grid_of_def SIM_WIDTH_def SIM_HEIGHT_def)
  have c1: "count_neighbors (grid_of [(0, 0)]) (SIM_WIDTH - 1) 0 = 1"
    using sat [OF b1, of "grid_of [(0, 0)]"] l1 by (simp add: min4_eq_1)
  have c2: "count_neighbors (grid_of [(0, 0)]) 0 (SIM_HEIGHT - 1) = 1"
    using sat [OF b2, of "grid_of [(0, 0)]"] l2 by (simp add: min4_eq_1)
  have c3: "count_neighbors (grid_of [(0, 0)]) (SIM_WIDTH - 1) (SIM_HEIGHT - 1) = 1"
    using sat [OF b3, of "grid_of [(0, 0)]"] l3 by (simp add: min4_eq_1)
  have m1: "(0, 0) \<in> set (torus_neighbors (SIM_WIDTH - 1) 0)"
    by (simp add: torus_neighbors_def SIM_WIDTH_def SIM_HEIGHT_def)
  have m2: "(0, 0) \<in> set (torus_neighbors 0 (SIM_HEIGHT - 1))"
    by (simp add: torus_neighbors_def SIM_WIDTH_def SIM_HEIGHT_def)
  have m3: "(0, 0) \<in> set (torus_neighbors (SIM_WIDTH - 1) (SIM_HEIGHT - 1))"
    by (simp add: torus_neighbors_def SIM_WIDTH_def SIM_HEIGHT_def)
  show ?thesis
    using count_neighbors_exhaustive_eq [OF assms, of cur] sat [OF assms, of cur]
      m1 m2 m3 c1 c2 c3 by simp
qed

theorem count_neighbors_torus_witness:
  "in_bounds 479 0 \<and>
   count_neighbors_exhaustive (grid_of [(0, 0), (478, 269)]) 479 0 = 2 \<and>
   min 4 (count_neighbors (grid_of [(0, 0), (478, 269)]) 479 0) = 2"
proof -
  have b: "in_bounds 479 0"
    by (simp add: in_bounds_def SIM_WIDTH_def SIM_HEIGHT_def)
  have l: "live_neighbors (grid_of [(0, 0), (478, 269)]) 479 0 = 2"
    by (simp add: live_neighbors_def torus_neighbors_def grid_of_def SIM_WIDTH_def SIM_HEIGHT_def)
  show ?thesis
    using b l count_neighbors_torus [OF b, of "grid_of [(0, 0), (478, 269)]"] by simp
qed


section \<open>The step\<close>

text \<open>
  The two outer loops run the body over \<open>all_cells\<close>. Since the step first clears the
  render buffer and adds at most one point for each cell, no write leaves the buffer, and
  the step returns from every state.
\<close>

lemma Update_cells_append:
  "Update_cells cnt (as @ bs) s =
     (case Update_cells cnt as s of None \<Rightarrow> None | Some s' \<Rightarrow> Update_cells cnt bs s')"
  by (induction as arbitrary: s) (auto split: option.splits)

lemma Update_y_loop_cells:
  "Update_y_loop cnt x y s = Update_cells cnt (map (Pair x) [y..SIM_HEIGHT - 1]) s"
proof (induction cnt x y s rule: Update_y_loop.induct)
  case (1 cnt x y s)
  show ?case
  proof (cases "y < SIM_HEIGHT")
    case True
    then have u: "[y..SIM_HEIGHT - 1] = y # [y + 1..SIM_HEIGHT - 1]"
      by (simp add: upto_rec1)
    show ?thesis
      using True 1 by (subst Update_y_loop.simps) (simp add: u split: option.splits)
  next
    case False
    then show ?thesis by (subst Update_y_loop.simps) simp
  qed
qed

lemma Update_x_loop_cells:
  "Update_x_loop cnt x s = Update_cells cnt (concat (map column_cells [x..SIM_WIDTH - 1])) s"
proof (induction cnt x s rule: Update_x_loop.induct)
  case (1 cnt x s)
  show ?case
  proof (cases "x < SIM_WIDTH")
    case True
    then have u: "[x..SIM_WIDTH - 1] = x # [x + 1..SIM_WIDTH - 1]"
      by (simp add: upto_rec1)
    show ?thesis
      using True 1
      by (subst Update_x_loop.simps)
         (simp add: u Update_cells_append Update_y_loop_cells column_cells_def [symmetric]
            split: option.splits)
  next
    case False
    then show ?thesis by (subst Update_x_loop.simps) simp
  qed
qed

lemma Update_Simulation_with_cells:
  "Update_Simulation_with cnt s =
     (case Update_cells cnt all_cells (Clear_Rendered_Points s) of
        None \<Rightarrow> None | Some s' \<Rightarrow> Some (swap_states s'))"
  by (simp add: Update_Simulation_with_def Update_x_loop_cells all_cells_def)

lemma length_Render_Change_Set [simp]: "length (Render_Change_Set s) = renderPointCount s"
  by (simp add: Render_Change_Set_def)

lemma Update_cell_result:
  assumes "int (renderPointCount s) < SIM_WIDTH * SIM_HEIGHT"
  shows "\<exists>s'. Update_cell cnt x y s = Some s' \<and>
           currentState s' = currentState s \<and>
           nextState s' = set_cell (nextState s) x y (next_cell cnt (currentState s) x y) \<and>
           Render_Change_Set s' =
             Render_Change_Set s @ (if next_cell cnt (currentState s) x y then [(x, y)] else []) \<and>
           renderPointCount s' =
             renderPointCount s + (if next_cell cnt (currentState s) x y then 1 else 0) \<and>
           steps_per_second s' = steps_per_second s"
  using assms
  by (auto simp: Update_cell_def Add_Rendered_Point_def next_cell_def life_rule_def Let_def
        Render_Change_Set_def)

lemma Update_cells_result:
  assumes "int (renderPointCount s) + int (length cs) \<le> SIM_WIDTH * SIM_HEIGHT"
  shows "\<exists>s'. Update_cells cnt cs s = Some s' \<and>
           currentState s' = currentState s \<and>
           (\<forall>a b. nextState s' a b =
              (if (a, b) \<in> set cs then next_cell cnt (currentState s) a b else nextState s a b)) \<and>
           Render_Change_Set s' =
             Render_Change_Set s @ filter (\<lambda>(a, b). next_cell cnt (currentState s) a b) cs \<and>
           steps_per_second s' = steps_per_second s"
  using assms
proof (induction cs arbitrary: s)
  case Nil
  then show ?case by simp
next
  case (Cons c cs)
  obtain x y where c: "c = (x, y)" by (cases c)
  have "int (renderPointCount s) < SIM_WIDTH * SIM_HEIGHT"
    using Cons.prems by simp
  from Update_cell_result [OF this, of cnt x y]
  obtain s1 where s1: "Update_cell cnt x y s = Some s1"
    "currentState s1 = currentState s"
    "nextState s1 = set_cell (nextState s) x y (next_cell cnt (currentState s) x y)"
    "Render_Change_Set s1 =
       Render_Change_Set s @ (if next_cell cnt (currentState s) x y then [(x, y)] else [])"
    "renderPointCount s1 =
       renderPointCount s + (if next_cell cnt (currentState s) x y then 1 else 0)"
    "steps_per_second s1 = steps_per_second s"
    by blast
  have "int (renderPointCount s1) + int (length cs) \<le> SIM_WIDTH * SIM_HEIGHT"
    using Cons.prems s1(5) by simp
  from Cons.IH [OF this]
  obtain s' where s': "Update_cells cnt cs s1 = Some s'"
    "currentState s' = currentState s1"
    "\<forall>a b. nextState s' a b =
       (if (a, b) \<in> set cs then next_cell cnt (currentState s1) a b else nextState s1 a b)"
    "Render_Change_Set s' =
       Render_Change_Set s1 @ filter (\<lambda>(a, b). next_cell cnt (currentState s1) a b) cs"
    "steps_per_second s' = steps_per_second s1"
    by blast
  have "Update_cells cnt (c # cs) s = Some s'"
    using c s1(1) s'(1) by simp
  moreover have "currentState s' = currentState s"
    using s1(2) s'(2) by simp
  moreover have "\<forall>a b. nextState s' a b =
      (if (a, b) \<in> set (c # cs) then next_cell cnt (currentState s) a b else nextState s a b)"
    using s'(3) s1(2,3) c by (auto simp: set_cell_def)
  moreover have "Render_Change_Set s' =
      Render_Change_Set s @ filter (\<lambda>(a, b). next_cell cnt (currentState s) a b) (c # cs)"
    using s'(4) s1(2,4) c by simp
  moreover have "steps_per_second s' = steps_per_second s"
    using s1(6) s'(5) by simp
  ultimately show ?case by blast
qed

lemma length_column_cells: "length (column_cells x) = nat SIM_HEIGHT"
  by (simp add: column_cells_def)

lemma length_all_cells: "int (length all_cells) = SIM_WIDTH * SIM_HEIGHT"
proof -
  have "length (concat (map column_cells xs)) = length xs * nat SIM_HEIGHT" for xs
    by (induction xs) (simp_all add: length_column_cells)
  then have "length all_cells = nat SIM_WIDTH * nat SIM_HEIGHT"
    by (simp add: all_cells_def)
  then show ?thesis
    using SIM_WIDTH_pos SIM_HEIGHT_pos by (simp add: nat_mult_distrib)
qed

lemma set_all_cells: "set all_cells = {(x, y). in_bounds x y}"
  by (auto simp: all_cells_def column_cells_def in_bounds_def)

lemma distinct_all_cells: "distinct all_cells"
proof -
  have "distinct (concat (map column_cells xs))" if "distinct xs" for xs
    using that
    by (induction xs) (auto simp: column_cells_def distinct_map inj_on_def)
  then show ?thesis by (simp add: all_cells_def)
qed

lemma Update_Simulation_with_result:
  "\<exists>s'. Update_Simulation_with cnt s = Some s' \<and>
         (\<forall>x y. currentState s' x y =
            (if in_bounds x y then next_cell cnt (currentState s) x y else nextState s x y)) \<and>
         nextState s' = currentState s \<and>
         Render_Change_Set s' = filter (\<lambda>(x, y). next_cell cnt (currentState s) x y) all_cells \<and>
         steps_per_second s' = steps_per_second s"
proof -
  let ?s0 = "Clear_Rendered_Points s"
  have "int (renderPointCount ?s0) + int (length all_cells) \<le> SIM_WIDTH * SIM_HEIGHT"
    by (simp add: Clear_Rendered_Points_def length_all_cells)
  from Update_cells_result [OF this, of cnt]
  obtain s1 where s1: "Update_cells cnt all_cells ?s0 = Some s1"
    "currentState s1 = currentState ?s0"
    "\<forall>a b. nextState s1 a b =
       (if (a, b) \<in> set all_cells then next_cell cnt (currentState ?s0) a b else nextState ?s0 a b)"
    "Render_Change_Set s1 =
       Render_Change_Set ?s0 @ filter (\<lambda>(a, b). next_cell cnt (currentState ?s0) a b) all_cells"
    "steps_per_second s1 = steps_per_second ?s0"
    by blast
  have c0: "currentState ?s0 = currentState s" "nextState ?s0 = nextState s"
    "Render_Change_Set ?s0 = []" "steps_per_second ?s0 = steps_per_second s"
    by (simp_all add: Clear_Rendered_Points_def Render_Change_Set_def)
  have sw: "Render_Change_Set (swap_states s1) = Render_Change_Set s1"
    by (simp add: swap_states_def Render_Change_Set_def)
  have "Update_Simulation_with cnt s = Some (swap_states s1)"
    using s1(1) by (simp add: Update_Simulation_with_cells)
  moreover have "\<forall>x y. currentState (swap_states s1) x y =
      (if in_bounds x y then next_cell cnt (currentState s) x y else nextState s x y)"
    using s1(3) c0 by (simp add: swap_states_def set_all_cells)
  moreover have "nextState (swap_states s1) = currentState s"
    using s1(2) c0 by (simp add: swap_states_def)
  moreover have "Render_Change_Set (swap_states s1) =
      filter (\<lambda>(x, y). next_cell cnt (currentState s) x y) all_cells"
    using s1(4) c0 sw by simp
  moreover have "steps_per_second (swap_states s1) = steps_per_second s"
    using s1(5) c0 by (simp add: swap_states_def)
  ultimately show ?thesis by blast
qed

lemma Update_cell_alt:
  "Update_cell cnt x y s =
     (if next_cell cnt (currentState s) x y
      then Add_Rendered_Point x y (s\<lparr>nextState := set_cell (nextState s) x y True\<rparr>)
      else Some (s\<lparr>nextState := set_cell (nextState s) x y False\<rparr>))"
  by (simp add: Update_cell_def next_cell_def life_rule_def Let_def)

lemma next_cell_count:
  assumes "in_bounds x y"
  shows "next_cell count_neighbors cur x y = life_rule (cur x y) (int (live_neighbors cur x y))"
  by (simp add: next_cell_def life_rule_count [OF assms])

lemma next_cell_exhaustive:
  assumes "in_bounds x y"
  shows "next_cell count_neighbors_exhaustive cur x y = life_rule (cur x y) (int (live_neighbors cur x y))"
  by (simp add: next_cell_def count_neighbors_exhaustive_eq [OF assms])

lemma Update_cells_cong:
  assumes "\<And>x y s. (x, y) \<in> set cs \<Longrightarrow> Update_cell c1 x y s = Update_cell c2 x y s"
  shows "Update_cells c1 cs s = Update_cells c2 cs s"
  using assms
proof (induction cs arbitrary: s)
  case Nil
  then show ?case by simp
next
  case (Cons c cs)
  obtain x y where c: "c = (x, y)" by (cases c)
  have h: "Update_cell c1 x y s = Update_cell c2 x y s"
    using Cons.prems c by simp
  have t: "Update_cells c1 cs s' = Update_cells c2 cs s'" for s'
    using Cons.IH Cons.prems by simp
  show ?case
    using c h t by (simp split: option.splits)
qed

text \<open>
  Claim C1. For every state and every cell of the grid, \<^verbatim>\<open>Update_Simulation\<close> returns,
  and in the new current state the cell follows the rule of the Game of Life on the
  number of its live neighbours on the torus in the old current state: with exactly 3 it
  is alive, with exactly 2 it keeps its state, with 0, 1, or 4 and more it is dead.
\<close>

theorem Update_Simulation_life_rule:
  assumes "in_bounds x y"
  shows "\<exists>s'. Update_Simulation s = Some s' \<and>
           (live_neighbors (currentState s) x y = 3 \<longrightarrow> currentState s' x y) \<and>
           (live_neighbors (currentState s) x y = 2 \<longrightarrow> currentState s' x y = currentState s x y) \<and>
           (live_neighbors (currentState s) x y \<le> 1 \<or> 4 \<le> live_neighbors (currentState s) x y
              \<longrightarrow> \<not> currentState s' x y)"
proof -
  from Update_Simulation_with_result [of count_neighbors s]
  obtain s' where s': "Update_Simulation s = Some s'"
    "\<forall>x y. currentState s' x y =
       (if in_bounds x y then next_cell count_neighbors (currentState s) x y else nextState s x y)"
    unfolding Update_Simulation_def by blast
  have "currentState s' x y = life_rule (currentState s x y) (int (live_neighbors (currentState s) x y))"
    using s'(2) assms by (simp add: next_cell_count)
  then show ?thesis
    using s'(1) by (auto simp: life_rule_def)
qed

theorem Update_Simulation_life_rule_witness:
  "in_bounds 0 0 \<and>
   live_neighbors (grid_of [(479, 269), (479, 0), (0, 269)]) 0 0 = 3 \<and>
   (\<exists>s'. Update_Simulation (init_world 0\<lparr>currentState := grid_of [(479, 269), (479, 0), (0, 269)]\<rparr>) = Some s' \<and>
         currentState s' 0 0)"
proof -
  have b: "in_bounds 0 0"
    by (simp add: in_bounds_def SIM_WIDTH_def SIM_HEIGHT_def)
  have n: "live_neighbors (grid_of [(479, 269), (479, 0), (0, 269)]) 0 0 = 3"
    by (simp add: live_neighbors_def torus_neighbors_def grid_of_def SIM_WIDTH_def SIM_HEIGHT_def)
  show ?thesis
    using b n Update_Simulation_life_rule [OF b, of "init_world 0\<lparr>currentState := grid_of [(479, 269), (479, 0), (0, 269)]\<rparr>"]
    by auto
qed

text \<open>
  Claim C3. The step with the early exit from the neighbour count and the step with the
  exhaustive count over all eight neighbours return the same state from every state.
\<close>

theorem Update_Simulation_early_exit:
  "Update_Simulation s = Update_Simulation_exhaustive s"
proof -
  have "Update_cell count_neighbors x y t = Update_cell count_neighbors_exhaustive x y t"
    if "(x, y) \<in> set all_cells" for x y t
  proof -
    have "in_bounds x y" using that by (simp add: set_all_cells)
    then show ?thesis
      by (simp add: Update_cell_alt next_cell_count next_cell_exhaustive)
  qed
  then have "Update_cells count_neighbors all_cells t = Update_cells count_neighbors_exhaustive all_cells t" for t
    by (rule Update_cells_cong)
  then show ?thesis
    by (simp add: Update_Simulation_def Update_Simulation_exhaustive_def Update_Simulation_with_cells)
qed

text \<open>
  Claim C4. The step assigns every cell of the next buffer and then swaps: from any
  state it returns, every cell of the grid in the new current state has the value the rule
  gives on the old current state, whatever the next buffer held before, and the new next
  buffer is the old current state. So from two states whose current grids agree, whatever
  their next buffers (and render buffers) hold, the new current grids agree.
\<close>

theorem Update_Simulation_ignores_nextState:
  assumes "\<forall>x y. in_bounds x y \<longrightarrow> currentState s1 x y = currentState s2 x y"
  shows "\<exists>t1 t2. Update_Simulation s1 = Some t1 \<and> Update_Simulation s2 = Some t2 \<and>
           (\<forall>x y. in_bounds x y \<longrightarrow> currentState t1 x y = currentState t2 x y) \<and>
           nextState t1 = currentState s1 \<and> nextState t2 = currentState s2 \<and>
           (\<forall>x y. in_bounds x y \<longrightarrow>
              currentState t1 x y =
                life_rule (currentState s1 x y) (int (live_neighbors (currentState s1) x y))) \<and>
           (\<forall>x y. in_bounds x y \<longrightarrow>
              currentState t2 x y =
                life_rule (currentState s2 x y) (int (live_neighbors (currentState s2) x y)))"
proof -
  from Update_Simulation_with_result [of count_neighbors s1]
  obtain t1 where t1: "Update_Simulation s1 = Some t1"
    "\<forall>x y. currentState t1 x y =
       (if in_bounds x y then next_cell count_neighbors (currentState s1) x y else nextState s1 x y)"
    "nextState t1 = currentState s1"
    unfolding Update_Simulation_def by blast
  from Update_Simulation_with_result [of count_neighbors s2]
  obtain t2 where t2: "Update_Simulation s2 = Some t2"
    "\<forall>x y. currentState t2 x y =
       (if in_bounds x y then next_cell count_neighbors (currentState s2) x y else nextState s2 x y)"
    "nextState t2 = currentState s2"
    unfolding Update_Simulation_def by blast
  have r1: "currentState t1 x y =
      life_rule (currentState s1 x y) (int (live_neighbors (currentState s1) x y))"
    if "in_bounds x y" for x y
    using t1(2) that by (simp add: next_cell_count)
  have r2: "currentState t2 x y =
      life_rule (currentState s2 x y) (int (live_neighbors (currentState s2) x y))"
    if "in_bounds x y" for x y
    using t2(2) that by (simp add: next_cell_count)
  have eq: "currentState t1 x y = currentState t2 x y" if b: "in_bounds x y" for x y
  proof -
    have "live_neighbors (currentState s1) x y = live_neighbors (currentState s2) x y"
      by (rule live_neighbors_cong) (use assms in simp)
    then show ?thesis
      using r1 [OF b] r2 [OF b] b assms by simp
  qed
  show ?thesis
    using t1(1,3) t2(1,3) r1 r2 eq by blast
qed

theorem Update_Simulation_ignores_nextState_witness:
  "currentState (init_world 0\<lparr>nextState := grid_of [(1, 1), (2, 2)]\<rparr>) = currentState (init_world 0) \<and>
   nextState (init_world 0\<lparr>nextState := grid_of [(1, 1), (2, 2)]\<rparr>) 1 1 \<and>
   \<not> nextState (init_world 0) 1 1 \<and>
   (\<exists>t1 t2.
      Update_Simulation (init_world 0\<lparr>nextState := grid_of [(1, 1), (2, 2)]\<rparr>) = Some t1 \<and>
      Update_Simulation (init_world 0) = Some t2 \<and>
      currentState t1 1 1 = currentState t2 1 1 \<and>
      \<not> currentState t1 1 1 \<and>
      nextState t1 = currentState (init_world 0))"
proof -
  let ?s1 = "init_world 0\<lparr>nextState := grid_of [(1, 1), (2, 2)]\<rparr>"
  have h: "\<forall>x y. in_bounds x y \<longrightarrow> currentState ?s1 x y = currentState (init_world 0) x y"
    by simp
  have b: "in_bounds 1 1"
    by (simp add: in_bounds_def SIM_WIDTH_def SIM_HEIGHT_def)
  have n1: "nextState ?s1 1 1" and n2: "\<not> nextState (init_world 0) 1 1"
    by (simp_all add: init_world_def grid_of_def)
  have c: "currentState ?s1 = currentState (init_world 0)"
    by simp
  have l: "live_neighbors (currentState ?s1) 1 1 = 0"
    by (simp add: live_neighbors_def init_world_def)
  have d: "\<not> life_rule (currentState ?s1 1 1) (int (live_neighbors (currentState ?s1) 1 1))"
    unfolding l by (simp add: life_rule_def init_world_def)
  from Update_Simulation_ignores_nextState [OF h]
  obtain t1 t2 where t: "Update_Simulation ?s1 = Some t1" "Update_Simulation (init_world 0) = Some t2"
    "\<forall>x y. in_bounds x y \<longrightarrow> currentState t1 x y = currentState t2 x y"
    "nextState t1 = currentState ?s1"
    "\<forall>x y. in_bounds x y \<longrightarrow>
        currentState t1 x y =
          life_rule (currentState ?s1 x y) (int (live_neighbors (currentState ?s1) x y))"
    by blast
  have e: "currentState t1 1 1 = currentState t2 1 1" using t(3) b by blast
  have f: "\<not> currentState t1 1 1" using t(5) b d by blast
  have g: "nextState t1 = currentState (init_world 0)" using t(4) c by simp
  show ?thesis
    using c n1 n2 t(1,2) e f g by blast
qed

section \<open>Painting\<close>

text \<open>
  \<^verbatim>\<open>Try_Paint_Point\<close> in its three cases, and the line painter as the painting of the
  coordinates it visits.
\<close>

lemma set_cell_apply:
  "set_cell g x y v a b = (if a = x \<and> b = y then v else g a b)"
  by (simp add: set_cell_def)

lemma Try_Paint_Point_out:
  assumes "\<not> in_bounds x y"
  shows "Try_Paint_Point x y s = Some (False, s)"
  using assms by (auto simp: Try_Paint_Point_def in_bounds_def)

lemma Try_Paint_Point_alive:
  assumes "in_bounds x y" "currentState s x y"
  shows "Try_Paint_Point x y s = Some (True, s)"
  using assms by (auto simp: Try_Paint_Point_def in_bounds_def)

lemma Try_Paint_Point_dead:
  assumes "in_bounds x y" "\<not> currentState s x y" "int (renderPointCount s) < SIM_WIDTH * SIM_HEIGHT"
  shows "Try_Paint_Point x y s =
     Some (True, s\<lparr>currentState := set_cell (currentState s) x y True,
                     renderPoints := (renderPoints s)(renderPointCount s := (x, y)),
                     renderPointCount := renderPointCount s + 1,
                     needs_new_render := True\<rparr>)"
  using assms by (auto simp: Try_Paint_Point_def in_bounds_def Add_Rendered_Point_def)

lemma Paint_Line_Shallow_loop_visits:
  "Paint_Line_Shallow_loop x1 dx dy step x y error s =
     paint_points (Shallow_visits x1 dx dy step x y error) s"
proof (induction x1 dx dy step x y error s rule: Paint_Line_Shallow_loop.induct)
  case (1 x1 dx dy step x y error s)
  show ?case
    apply (subst Paint_Line_Shallow_loop.simps)
    apply (subst Shallow_visits.simps)
    using 1
    apply (auto split: option.splits simp: Let_def)
    done
qed

lemma Paint_Line_Steep_loop_visits:
  "Paint_Line_Steep_loop y1 dx dy step x y error s =
     paint_points (Steep_visits y1 dx dy step x y error) s"
proof (induction y1 dx dy step x y error s rule: Paint_Line_Steep_loop.induct)
  case (1 y1 dx dy step x y error s)
  show ?case
    apply (subst Paint_Line_Steep_loop.simps)
    apply (subst Steep_visits.simps)
    using 1
    apply (auto split: option.splits simp: Let_def)
    done
qed

lemma Paint_Line_paint_points:
  "Paint_Line x0 y0 x1 y1 s = paint_points (Paint_Line_visits x0 y0 x1 y1) s"
  by (simp add: Paint_Line_def Paint_Line_visits_def Paint_Line_Shallow_def Paint_Line_Steep_def
        Paint_Line_Shallow_visits_def Paint_Line_Steep_visits_def
        Paint_Line_Shallow_loop_visits Paint_Line_Steep_loop_visits Let_def)

section \<open>Who changes the Render Change Set\<close>

text \<open>
  \<^verbatim>\<open>Add_Rendered_Point\<close> appends one point. Painting a point, a line or a frame's
  worth of mouse input only appends, so what the set held stays as a prefix; the event
  handler leaves the set alone. The step does not look at the count it finds.
\<close>

lemma Add_Rendered_Point_appends:
  assumes "Add_Rendered_Point x y s = Some t"
  shows "Render_Change_Set t = Render_Change_Set s @ [(x, y)]"
  using assms by (auto simp: Add_Rendered_Point_def Render_Change_Set_def split: if_splits)

lemma Try_Paint_Point_prefix:
  assumes "Try_Paint_Point x y s = Some (b, t)"
  shows "prefix (Render_Change_Set s) (Render_Change_Set t)"
proof (cases "in_bounds x y \<and> \<not> currentState s x y")
  case False
  then have "t = s"
    using assms by (auto simp: Try_Paint_Point_def in_bounds_def split: if_splits)
  then show ?thesis by simp
next
  case True
  let ?s1 = "s\<lparr>currentState := set_cell (currentState s) x y True\<rparr>"
  have "Add_Rendered_Point x y ?s1 = Some t"
    using assms True by (auto simp: Try_Paint_Point_def in_bounds_def split: option.splits)
  then have "Render_Change_Set t = Render_Change_Set ?s1 @ [(x, y)]"
    by (rule Add_Rendered_Point_appends)
  moreover have "Render_Change_Set ?s1 = Render_Change_Set s"
    by (simp add: Render_Change_Set_def)
  ultimately show ?thesis by simp
qed

lemma paint_points_prefix:
  assumes "paint_points ps s = Some t"
  shows "prefix (Render_Change_Set s) (Render_Change_Set t)"
  using assms
proof (induction ps arbitrary: s)
  case Nil
  then show ?case by simp
next
  case (Cons p ps)
  obtain x y where p: "p = (x, y)" by (cases p)
  from Cons.prems p obtain b s1 where s1: "Try_Paint_Point x y s = Some (b, s1)"
    "paint_points ps s1 = Some t"
    by (auto split: option.splits)
  have "prefix (Render_Change_Set s) (Render_Change_Set s1)"
    by (rule Try_Paint_Point_prefix [OF s1(1)])
  moreover have "prefix (Render_Change_Set s1) (Render_Change_Set t)"
    by (rule Cons.IH [OF s1(2)])
  ultimately show ?case by (rule prefix_order.trans)
qed

lemma Paint_Line_prefix:
  assumes "Paint_Line x0 y0 x1 y1 s = Some t"
  shows "prefix (Render_Change_Set s) (Render_Change_Set t)"
  using assms paint_points_prefix by (simp add: Paint_Line_paint_points)

lemma PaintCells_prefix:
  assumes "PaintCells s = Some t"
  shows "prefix (Render_Change_Set s) (Render_Change_Set t)"
proof (cases "mouseDown s")
  case False
  then have "t = s\<lparr>mouseWasDown := mouseDown s\<rparr>"
    using assms by (auto simp: PaintCells_def)
  then show ?thesis by (simp add: Render_Change_Set_def)
next
  case True
  let ?cx = "float_to_int (mouseX s / real_of_int RENDER_SCALE)"
  let ?cy = "float_to_int (mouseY s / real_of_int RENDER_SCALE)"
  have "\<exists>s1. prefix (Render_Change_Set s) (Render_Change_Set s1) \<and>
          Render_Change_Set t = Render_Change_Set s1"
  proof (cases "mouseWasDown s")
    case True
    with \<open>mouseDown s\<close> assms obtain s1 where
      s1: "Paint_Line (lastMouseCellX s) (lastMouseCellY s) ?cx ?cy s = Some s1"
      "t = s1\<lparr>lastMouseCellX := ?cx, lastMouseCellY := ?cy, mouseWasDown := mouseDown s1\<rparr>"
      by (auto simp: PaintCells_def Let_def split: option.splits)
    have "Render_Change_Set t = Render_Change_Set s1"
      using s1(2) by (simp add: Render_Change_Set_def)
    then show ?thesis using Paint_Line_prefix [OF s1(1)] by blast
  next
    case False
    with \<open>mouseDown s\<close> assms obtain b s1 where
      s1: "Try_Paint_Point ?cx ?cy s = Some (b, s1)"
      "t = s1\<lparr>lastMouseCellX := ?cx, lastMouseCellY := ?cy, mouseWasDown := mouseDown s1\<rparr>"
      by (auto simp: PaintCells_def Let_def split: option.splits)
    have "Render_Change_Set t = Render_Change_Set s1"
      using s1(2) by (simp add: Render_Change_Set_def)
    then show ?thesis using Try_Paint_Point_prefix [OF s1(1)] by blast
  qed
  then show ?thesis by auto
qed

lemma SDL_AppEvent_Render_Change_Set:
  "Render_Change_Set (snd (SDL_AppEvent e s)) = Render_Change_Set s"
  by (cases e) (simp_all add: Render_Change_Set_def Let_def)

lemma SDL_AppIterate_without_step_prefix:
  assumes "SDL_AppIterate_with (\<lambda>s. None) now s = Some t"
  shows "prefix (Render_Change_Set s) (Render_Change_Set t)"
proof -
  from assms obtain s1 where s1: "PaintCells s = Some s1"
    "t = (if needs_new_render s1 then s1\<lparr>needs_new_render := False\<rparr> else s1)"
    by (auto simp: SDL_AppIterate_with_def Let_def split: option.splits if_splits)
  have "Render_Change_Set t = Render_Change_Set s1"
    using s1(2) by (simp add: Render_Change_Set_def)
  then show ?thesis using PaintCells_prefix [OF s1(1)] by simp
qed

lemma Update_Simulation_clears_first:
  "Update_Simulation (s\<lparr>renderPointCount := n\<rparr>) = Update_Simulation s"
  by (simp add: Update_Simulation_def Update_Simulation_with_def Clear_Rendered_Points_def)

text \<open>
  Claim C6. After \<^verbatim>\<open>Update_Simulation\<close> the Render Change Set is the list of the live
  cells of the new current grid, in the order the step visits the cells; so it has no
  duplicate and holds exactly the coordinates of the live cells, whatever it held
  before. The step starts by clearing the set: \<^verbatim>\<open>Clear_Rendered_Points\<close> empties it, and
  the step from the cleared state, or from a state with any other count, is the step from
  the state itself. No other operation rebuilds the set: \<^verbatim>\<open>Add_Rendered_Point\<close>,
  \<^verbatim>\<open>Try_Paint_Point\<close>, \<^verbatim>\<open>Paint_Line\<close>, \<^verbatim>\<open>PaintCells\<close> and a frame tick that does not
  step keep the old set as a prefix of the new one, and \<^verbatim>\<open>SDL_AppEvent\<close> does not
  change it.
\<close>

theorem Update_Simulation_render_set:
  "(\<exists>s'. Update_Simulation s = Some s' \<and>
         Render_Change_Set s' = filter (\<lambda>(x, y). currentState s' x y) all_cells \<and>
         distinct (Render_Change_Set s') \<and>
         set (Render_Change_Set s') = {(x, y). in_bounds x y \<and> currentState s' x y}) \<and>
   Render_Change_Set (Clear_Rendered_Points s) = [] \<and>
   Update_Simulation (Clear_Rendered_Points s) = Update_Simulation s \<and>
   Update_Simulation (s\<lparr>renderPointCount := n\<rparr>) = Update_Simulation s \<and>
   (\<forall>x y t. Add_Rendered_Point x y s = Some t \<longrightarrow>
      Render_Change_Set t = Render_Change_Set s @ [(x, y)]) \<and>
   (\<forall>x y b t. Try_Paint_Point x y s = Some (b, t) \<longrightarrow>
      prefix (Render_Change_Set s) (Render_Change_Set t)) \<and>
   (\<forall>x0 y0 x1 y1 t. Paint_Line x0 y0 x1 y1 s = Some t \<longrightarrow>
      prefix (Render_Change_Set s) (Render_Change_Set t)) \<and>
   (\<forall>t. PaintCells s = Some t \<longrightarrow> prefix (Render_Change_Set s) (Render_Change_Set t)) \<and>
   (\<forall>e. Render_Change_Set (snd (SDL_AppEvent e s)) = Render_Change_Set s) \<and>
   (\<forall>now t. SDL_AppIterate_with (\<lambda>s. None) now s = Some t \<longrightarrow>
      prefix (Render_Change_Set s) (Render_Change_Set t))"
proof -
  from Update_Simulation_with_result [of count_neighbors s]
  obtain s' where s': "Update_Simulation s = Some s'"
    "\<forall>x y. currentState s' x y =
       (if in_bounds x y then next_cell count_neighbors (currentState s) x y else nextState s x y)"
    "Render_Change_Set s' = filter (\<lambda>(x, y). next_cell count_neighbors (currentState s) x y) all_cells"
    unfolding Update_Simulation_def by blast
  have "filter (\<lambda>(x, y). next_cell count_neighbors (currentState s) x y) all_cells =
        filter (\<lambda>(x, y). currentState s' x y) all_cells"
    by (rule filter_cong) (auto simp: set_all_cells s'(2))
  then have r: "Render_Change_Set s' = filter (\<lambda>(x, y). currentState s' x y) all_cells"
    using s'(3) by simp
  have d: "distinct (Render_Change_Set s')"
    using r distinct_all_cells by simp
  have m: "set (Render_Change_Set s') = {(x, y). in_bounds x y \<and> currentState s' x y}"
    using r by (auto simp: set_all_cells)
  have step: "\<exists>s'. Update_Simulation s = Some s' \<and>
         Render_Change_Set s' = filter (\<lambda>(x, y). currentState s' x y) all_cells \<and>
         distinct (Render_Change_Set s') \<and>
         set (Render_Change_Set s') = {(x, y). in_bounds x y \<and> currentState s' x y}"
    using s'(1) r d m by blast
  have c: "Render_Change_Set (Clear_Rendered_Points s) = []"
    by (simp add: Render_Change_Set_def Clear_Rendered_Points_def)
  have c2: "Update_Simulation (Clear_Rendered_Points s) = Update_Simulation s"
    unfolding Clear_Rendered_Points_def by (rule Update_Simulation_clears_first)
  have c3: "Update_Simulation (s\<lparr>renderPointCount := n\<rparr>) = Update_Simulation s"
    by (rule Update_Simulation_clears_first)
  have a: "\<forall>x y t. Add_Rendered_Point x y s = Some t \<longrightarrow>
      Render_Change_Set t = Render_Change_Set s @ [(x, y)]"
    using Add_Rendered_Point_appends by blast
  have p1: "\<forall>x y b t. Try_Paint_Point x y s = Some (b, t) \<longrightarrow>
      prefix (Render_Change_Set s) (Render_Change_Set t)"
    using Try_Paint_Point_prefix by blast
  have p2: "\<forall>x0 y0 x1 y1 t. Paint_Line x0 y0 x1 y1 s = Some t \<longrightarrow>
      prefix (Render_Change_Set s) (Render_Change_Set t)"
    using Paint_Line_prefix by blast
  have p3: "\<forall>t. PaintCells s = Some t \<longrightarrow> prefix (Render_Change_Set s) (Render_Change_Set t)"
    using PaintCells_prefix by blast
  have p4: "\<forall>e. Render_Change_Set (snd (SDL_AppEvent e s)) = Render_Change_Set s"
    using SDL_AppEvent_Render_Change_Set by blast
  have p5: "\<forall>now t. SDL_AppIterate_with (\<lambda>s. None) now s = Some t \<longrightarrow>
      prefix (Render_Change_Set s) (Render_Change_Set t)"
    using SDL_AppIterate_without_step_prefix by blast
  show ?thesis
    using step c c2 c3 a p1 p2 p3 p4 p5 by (intro conjI)
qed

theorem Update_Simulation_render_set_witness:
  "Try_Paint_Point 3 4 (init_world 0) \<noteq> None \<and>
   (\<exists>t. Try_Paint_Point 3 4 (init_world 0) = Some (True, t) \<and>
        prefix (Render_Change_Set (init_world 0)) (Render_Change_Set t)) \<and>
   (\<exists>s'. Update_Simulation (init_world 0) = Some s' \<and> distinct (Render_Change_Set s')) \<and>
   Update_Simulation (init_world 0\<lparr>renderPointCount := 7\<rparr>) = Update_Simulation (init_world 0)"
proof -
  have "\<exists>t. Try_Paint_Point 3 4 (init_world 0) = Some (True, t)"
    by (simp add: Try_Paint_Point_def Add_Rendered_Point_def init_world_def SIM_WIDTH_def
          SIM_HEIGHT_def)
  then obtain t where t: "Try_Paint_Point 3 4 (init_world 0) = Some (True, t)" by blast
  show ?thesis
    using t Update_Simulation_render_set [of "init_world 0" 7] by blast
qed

section \<open>The render buffer in every run\<close>

text \<open>
  Where the Render Change Set lists the live cells of the grid once each, a dead cell of
  the grid leaves room in the buffer, so painting it writes inside the array; painting
  and stepping keep the invariant, and so do the event handler and the frame tick. Hence
  no run from the start ever writes outside the buffer: every run returns a state.
\<close>

lemma card_all_cells: "int (card (set all_cells)) = SIM_WIDTH * SIM_HEIGHT"
  using distinct_card [OF distinct_all_cells] length_all_cells by simp

lemma render_inv_count:
  assumes "render_inv s"
  shows "renderPointCount s = card {(x, y). in_bounds x y \<and> currentState s x y}"
proof -
  have d: "distinct (Render_Change_Set s)"
    and m: "set (Render_Change_Set s) = {(x, y). in_bounds x y \<and> currentState s x y}"
    using assms by (simp_all add: render_inv_def)
  have "card (set (Render_Change_Set s)) = length (Render_Change_Set s)"
    using d by (rule distinct_card)
  then show ?thesis using m by simp
qed

lemma render_inv_length:
  assumes "render_inv s"
  shows "card (set (Render_Change_Set s)) = renderPointCount s"
proof -
  have "distinct (Render_Change_Set s)"
    using assms by (simp add: render_inv_def)
  then have "card (set (Render_Change_Set s)) = length (Render_Change_Set s)"
    by (rule distinct_card)
  then show ?thesis by simp
qed

lemma render_inv_bound:
  assumes "render_inv s"
  shows "int (renderPointCount s) \<le> SIM_WIDTH * SIM_HEIGHT"
proof -
  have "set (Render_Change_Set s) \<subseteq> set all_cells"
    using assms by (auto simp: render_inv_def set_all_cells)
  then have "card (set (Render_Change_Set s)) \<le> card (set all_cells)"
    by (simp add: card_mono)
  moreover have "card (set (Render_Change_Set s)) = renderPointCount s"
    using assms(1) by (rule render_inv_length)
  ultimately show ?thesis using card_all_cells by linarith
qed

lemma render_inv_room:
  assumes "render_inv s" "in_bounds x y" "\<not> currentState s x y"
  shows "int (renderPointCount s) < SIM_WIDTH * SIM_HEIGHT"
proof -
  have "(x, y) \<in> set all_cells" "(x, y) \<notin> set (Render_Change_Set s)"
    using assms by (auto simp: render_inv_def set_all_cells)
  moreover have "set (Render_Change_Set s) \<subseteq> set all_cells"
    using assms by (auto simp: render_inv_def set_all_cells)
  ultimately have "set (Render_Change_Set s) \<subset> set all_cells" by blast
  then have "card (set (Render_Change_Set s)) < card (set all_cells)"
    by (simp add: psubset_card_mono)
  moreover have "card (set (Render_Change_Set s)) = renderPointCount s"
    using assms(1) by (rule render_inv_length)
  ultimately show ?thesis using card_all_cells by linarith
qed

lemma Try_Paint_Point_inv:
  assumes "world_inv s"
  shows "\<exists>b s'. Try_Paint_Point x y s = Some (b, s') \<and> world_inv s'"
proof (cases "in_bounds x y")
  case False
  then have "Try_Paint_Point x y s = Some (False, s)" by (rule Try_Paint_Point_out)
  then show ?thesis using assms by blast
next
  case True
  show ?thesis
  proof (cases "currentState s x y")
    case True
    with \<open>in_bounds x y\<close> have "Try_Paint_Point x y s = Some (True, s)"
      by (rule Try_Paint_Point_alive)
    then show ?thesis using assms by blast
  next
    case False
    have r: "render_inv s" using assms by (simp add: world_inv_def)
    have room: "int (renderPointCount s) < SIM_WIDTH * SIM_HEIGHT"
      by (rule render_inv_room [OF r True False])
    let ?s' = "s\<lparr>currentState := set_cell (currentState s) x y True,
                  renderPoints := (renderPoints s)(renderPointCount s := (x, y)),
                  renderPointCount := renderPointCount s + 1,
                  needs_new_render := True\<rparr>"
    have rcs: "Render_Change_Set ?s' = Render_Change_Set s @ [(x, y)]"
      by (simp add: Render_Change_Set_def)
    have "(x, y) \<notin> set (Render_Change_Set s)"
      using r False by (auto simp: render_inv_def)
    then have d: "distinct (Render_Change_Set ?s')"
      using r rcs by (simp add: render_inv_def)
    have m: "set (Render_Change_Set ?s') = {(a, b). in_bounds a b \<and> currentState ?s' a b}"
      using r rcs True by (auto simp: render_inv_def set_cell_apply)
    have "world_inv ?s'"
      using d m assms by (simp add: world_inv_def render_inv_def rate_inv_def)
    then show ?thesis
      using Try_Paint_Point_dead [OF True False room] by blast
  qed
qed

lemma paint_points_inv:
  assumes "world_inv s"
  shows "\<exists>s'. paint_points ps s = Some s' \<and> world_inv s'"
  using assms
proof (induction ps arbitrary: s)
  case Nil
  then show ?case by simp
next
  case (Cons p ps)
  obtain x y where p: "p = (x, y)" by (cases p)
  from Try_Paint_Point_inv [OF Cons.prems, of x y]
  obtain b s1 where s1: "Try_Paint_Point x y s = Some (b, s1)" "world_inv s1" by blast
  from Cons.IH [OF s1(2)] obtain s' where "paint_points ps s1 = Some s'" "world_inv s'" by blast
  then show ?case using p s1(1) by simp
qed

lemma Paint_Line_inv:
  assumes "world_inv s"
  shows "\<exists>s'. Paint_Line x0 y0 x1 y1 s = Some s' \<and> world_inv s'"
  using paint_points_inv [OF assms] by (simp add: Paint_Line_paint_points)

lemma Update_Simulation_inv:
  assumes "rate_inv s"
  shows "\<exists>s'. Update_Simulation s = Some s' \<and> world_inv s'"
proof -
  from Update_Simulation_with_result [of count_neighbors s]
  obtain s' where s': "Update_Simulation s = Some s'"
    "\<forall>x y. currentState s' x y =
       (if in_bounds x y then next_cell count_neighbors (currentState s) x y else nextState s x y)"
    "Render_Change_Set s' = filter (\<lambda>(x, y). next_cell count_neighbors (currentState s) x y) all_cells"
    "steps_per_second s' = steps_per_second s"
    unfolding Update_Simulation_def by blast
  have "filter (\<lambda>(x, y). next_cell count_neighbors (currentState s) x y) all_cells =
        filter (\<lambda>(x, y). currentState s' x y) all_cells"
    by (rule filter_cong) (auto simp: set_all_cells s'(2))
  then have r: "Render_Change_Set s' = filter (\<lambda>(x, y). currentState s' x y) all_cells"
    using s'(3) by simp
  have "render_inv s'"
    unfolding render_inv_def using r distinct_all_cells by (auto simp: set_all_cells)
  then show ?thesis
    using s'(1,4) assms by (auto simp: world_inv_def rate_inv_def)
qed

lemma world_inv_controls:
  assumes "world_inv s"
  shows "world_inv (s\<lparr>lastMouseCellX := a, lastMouseCellY := b\<rparr>)"
    and "world_inv (s\<lparr>mouseWasDown := c\<rparr>)"
    and "world_inv (s\<lparr>last_step_time := t\<rparr>)"
    and "world_inv (s\<lparr>needs_new_render := d\<rparr>)"
    and "world_inv (s\<lparr>mouseDown := e, mouseX := u, mouseY := v\<rparr>)"
    and "world_inv (s\<lparr>mouseX := u, mouseY := v\<rparr>)"
    and "world_inv (s\<lparr>mouseDown := e\<rparr>)"
  using assms by (simp_all add: world_inv_def render_inv_def rate_inv_def Render_Change_Set_def)

lemma PaintCells_inv:
  assumes "world_inv s"
  shows "\<exists>s'. PaintCells s = Some s' \<and> world_inv s'"
proof (cases "mouseDown s")
  case False
  then show ?thesis using assms by (simp add: PaintCells_def world_inv_controls)
next
  case True
  let ?cx = "float_to_int (mouseX s / real_of_int RENDER_SCALE)"
  let ?cy = "float_to_int (mouseY s / real_of_int RENDER_SCALE)"
  have "\<exists>s1. (if mouseWasDown s
                 then Paint_Line (lastMouseCellX s) (lastMouseCellY s) ?cx ?cy s
                 else map_option snd (Try_Paint_Point ?cx ?cy s)) = Some s1 \<and> world_inv s1"
  proof (cases "mouseWasDown s")
    case True
    then show ?thesis using Paint_Line_inv [OF assms] by simp
  next
    case False
    from Try_Paint_Point_inv [OF assms, of ?cx ?cy]
    obtain b s1 where "Try_Paint_Point ?cx ?cy s = Some (b, s1)" "world_inv s1" by blast
    then show ?thesis using False by simp
  qed
  then obtain s1 where s1:
    "(if mouseWasDown s
      then Paint_Line (lastMouseCellX s) (lastMouseCellY s) ?cx ?cy s
      else map_option snd (Try_Paint_Point ?cx ?cy s)) = Some s1" "world_inv s1"
    by blast
  show ?thesis
    using True s1 by (simp add: PaintCells_def Let_def world_inv_controls)
qed

lemma SDL_AppEvent_inv:
  assumes "world_inv s"
  shows "world_inv (snd (SDL_AppEvent e s))"
proof (cases e)
  case (SDL_EVENT_MOUSE_WHEEL delta)
  then show ?thesis
    using assms
    by (simp add: world_inv_def render_inv_def rate_inv_def Render_Change_Set_def Let_def
          MAX_STEPS_PER_SECOND_def)
qed (use assms in \<open>simp_all add: world_inv_controls\<close>)

lemma SDL_AppIterate_inv:
  assumes "world_inv s"
  shows "\<exists>s'. SDL_AppIterate now s = Some s' \<and> world_inv s'"
proof -
  from PaintCells_inv [OF assms] obtain s1 where s1: "PaintCells s = Some s1" "world_inv s1"
    by blast
  have "rate_inv s1" using s1(2) by (simp add: world_inv_def)
  from Update_Simulation_inv [OF this] obtain s2 where
    s2: "Update_Simulation s1 = Some s2" "world_inv s2" by blast
  show ?thesis
    using s1 s2
    by (simp add: SDL_AppIterate_def SDL_AppIterate_with_def Let_def world_inv_controls)
qed

lemma run_inv:
  assumes "world_inv s"
  shows "\<exists>s'. run ins s = Some s' \<and> world_inv s'"
  using assms
proof (induction ins arbitrary: s)
  case Nil
  then show ?case by (simp add: run_def)
next
  case (Cons i ins)
  show ?case
  proof (cases i)
    case (Event e)
    obtain r s1 where e: "SDL_AppEvent e s = (r, s1)" by (cases "SDL_AppEvent e s")
    have w: "world_inv s1" using SDL_AppEvent_inv [OF Cons.prems, of e] e by simp
    show ?thesis
    proof (cases r)
      case SDL_APP_CONTINUE
      then show ?thesis using Cons.IH [OF w] e Event by (simp add: run_def)
    qed (use w e Event in \<open>simp_all add: run_def\<close>)
  next
    case (Frame now)
    from SDL_AppIterate_inv [OF Cons.prems, of now]
    obtain s1 where "SDL_AppIterate now s = Some s1" "world_inv s1" by blast
    then show ?thesis using Cons.IH [of s1] Frame by (simp add: run_def SDL_AppIterate_def)
  next
    case (Paint x y)
    from Try_Paint_Point_inv [OF Cons.prems, of x y]
    obtain b s1 where "Try_Paint_Point x y s = Some (b, s1)" "world_inv s1" by blast
    then show ?thesis using Cons.IH [of s1] Paint by (simp add: run_def)
  next
    case (Line x0 y0 x1 y1)
    from Paint_Line_inv [OF Cons.prems, of x0 y0 x1 y1]
    obtain s1 where "Paint_Line x0 y0 x1 y1 s = Some s1" "world_inv s1" by blast
    then show ?thesis using Cons.IH [of s1] Line by (simp add: run_def)
  next
    case Step
    have "rate_inv s" using Cons.prems by (simp add: world_inv_def)
    from Update_Simulation_inv [OF this]
    obtain s1 where "Update_Simulation s = Some s1" "world_inv s1" by blast
    then show ?thesis using Cons.IH [of s1] Step by (simp add: run_def)
  qed
qed

lemma world_inv_init: "world_inv (init_world now)"
  by (simp add: world_inv_def render_inv_def rate_inv_def init_world_def Render_Change_Set_def
        MAX_STEPS_PER_SECOND_def)

lemma run_init_inv:
  "\<exists>s. run ins (init_world t0) = Some s \<and> world_inv s"
  by (rule run_inv [OF world_inv_init])

text \<open>
  Claim C5. In every state a run from the start reaches, and for every pair of integers
  \<open>(x, y)\<close>, \<^verbatim>\<open>Try_Paint_Point\<close> returns; its result is true exactly when
  \<open>0 \<le> x < SIM_WIDTH\<close> and \<open>0 \<le> y < SIM_HEIGHT\<close>. When it is false the whole state is
  unchanged (the coordinates are not wrapped). When it is true the cell is alive in the
  current grid afterwards and no other cell of it has changed, the next grid is untouched,
  and the Render Change Set has gained \<open>(x, y)\<close> exactly when the cell was dead.
\<close>

theorem Try_Paint_Point_bounds:
  assumes "run ins (init_world t0) = Some s"
  shows "\<exists>b s'. Try_Paint_Point x y s = Some (b, s') \<and>
           (b \<longleftrightarrow> 0 \<le> x \<and> x < SIM_WIDTH \<and> 0 \<le> y \<and> y < SIM_HEIGHT) \<and>
           (\<not> b \<longrightarrow> s' = s) \<and>
           (b \<longrightarrow> currentState s' = set_cell (currentState s) x y True \<and>
                  currentState s' x y \<and>
                  nextState s' = nextState s \<and>
                  Render_Change_Set s' =
                    Render_Change_Set s @ (if currentState s x y then [] else [(x, y)]))"
proof -
  have w: "world_inv s"
    using run_init_inv [of ins t0] assms by simp
  show ?thesis
  proof (cases "in_bounds x y")
    case False
    then have t: "Try_Paint_Point x y s = Some (False, s)" by (rule Try_Paint_Point_out)
    have n: "\<not> (0 \<le> x \<and> x < SIM_WIDTH \<and> 0 \<le> y \<and> y < SIM_HEIGHT)"
      using False by (auto simp: in_bounds_def)
    show ?thesis
      by (rule exI [of _ False], rule exI [of _ s]) (use t n in simp)
  next
    case True
    then have xy: "0 \<le> x \<and> x < SIM_WIDTH \<and> 0 \<le> y \<and> y < SIM_HEIGHT"
      by (simp add: in_bounds_def)
    show ?thesis
    proof (cases "currentState s x y")
      case alive: True
      have t: "Try_Paint_Point x y s = Some (True, s)"
        using True alive by (rule Try_Paint_Point_alive)
      have c: "currentState s = set_cell (currentState s) x y True"
        using alive by (auto simp: set_cell_apply fun_eq_iff)
      show ?thesis
        by (rule exI [of _ True], rule exI [of _ s]) (use t c xy alive in simp)
    next
      case dead: False
      have r: "render_inv s" using w by (simp add: world_inv_def)
      have room: "int (renderPointCount s) < SIM_WIDTH * SIM_HEIGHT"
        by (rule render_inv_room [OF r True dead])
      let ?s' = "s\<lparr>currentState := set_cell (currentState s) x y True,
                    renderPoints := (renderPoints s)(renderPointCount s := (x, y)),
                    renderPointCount := renderPointCount s + 1,
                    needs_new_render := True\<rparr>"
      have t: "Try_Paint_Point x y s = Some (True, ?s')"
        by (rule Try_Paint_Point_dead [OF True dead room])
      have rcs: "Render_Change_Set ?s' = Render_Change_Set s @ [(x, y)]"
        by (simp add: Render_Change_Set_def)
      show ?thesis
        by (rule exI [of _ True], rule exI [of _ ?s'])
           (use t rcs xy dead in \<open>simp add: set_cell_apply\<close>)
    qed
  qed
qed

theorem Try_Paint_Point_bounds_witness:
  "run [Paint 3 4] (init_world 0) \<noteq> None \<and>
   (\<exists>s. run [Paint 3 4] (init_world 0) = Some s \<and>
        map_option fst (Try_Paint_Point 479 269 s) = Some True \<and>
        Try_Paint_Point 480 0 s = Some (False, s) \<and>
        Try_Paint_Point (- 1) 0 s = Some (False, s) \<and>
        Try_Paint_Point 0 270 s = Some (False, s) \<and>
        Try_Paint_Point 3 4 s = Some (True, s))"
proof -
  obtain s where s: "run [Paint 3 4] (init_world 0) = Some s"
    using run_init_inv [of "[Paint 3 4]" 0] by blast
  have a: "map_option fst (Try_Paint_Point 479 269 s) = Some True"
    using Try_Paint_Point_bounds [OF s, of 479 269] by (auto simp: SIM_WIDTH_def SIM_HEIGHT_def)
  have b: "Try_Paint_Point 480 0 s = Some (False, s)"
    using Try_Paint_Point_bounds [OF s, of 480 0] by (auto simp: SIM_WIDTH_def SIM_HEIGHT_def)
  have c: "Try_Paint_Point (- 1) 0 s = Some (False, s)"
    using Try_Paint_Point_bounds [OF s, of "- 1" 0] by (auto simp: SIM_WIDTH_def SIM_HEIGHT_def)
  have d: "Try_Paint_Point 0 270 s = Some (False, s)"
    using Try_Paint_Point_bounds [OF s, of 0 270] by (auto simp: SIM_WIDTH_def SIM_HEIGHT_def)
  have "currentState s 3 4"
    using s
    by (auto simp: run_def Try_Paint_Point_def Add_Rendered_Point_def init_world_def
          SIM_WIDTH_def SIM_HEIGHT_def set_cell_apply split: option.splits)
  then have e: "Try_Paint_Point 3 4 s = Some (True, s)"
    by (intro Try_Paint_Point_alive) (simp_all add: in_bounds_def SIM_WIDTH_def SIM_HEIGHT_def)
  show ?thesis using s a b c d e by simp
qed

text \<open>
  Claim C10. Every run from the start (the all-dead grid and an empty render buffer),
  whatever events, frame ticks, painted points, painted lines and steps it interleaves,
  returns a state: no \<^verbatim>\<open>Add_Rendered_Point\<close> has written outside \<^verbatim>\<open>renderPoints\<close>. In
  that state \<^verbatim>\<open>renderPointCount\<close> is the number of live cells of the current grid, the
  Render Change Set has no duplicate and holds exactly the live cells, and
  \<^verbatim>\<open>renderPointCount\<close> is at most \<open>SIM_WIDTH * SIM_HEIGHT\<close>.
\<close>

theorem render_buffer_invariant:
  "\<exists>s. run ins (init_world t0) = Some s \<and>
       renderPointCount s = card {(x, y). in_bounds x y \<and> currentState s x y} \<and>
       distinct (Render_Change_Set s) \<and>
       set (Render_Change_Set s) = {(x, y). in_bounds x y \<and> currentState s x y} \<and>
       int (renderPointCount s) \<le> SIM_WIDTH * SIM_HEIGHT"
proof -
  obtain s where s: "run ins (init_world t0) = Some s" "world_inv s"
    using run_init_inv [of ins t0] by blast
  have r: "render_inv s" using s(2) by (simp add: world_inv_def)
  show ?thesis
    using s(1) render_inv_count [OF r] render_inv_bound [OF r] r
    by (simp add: render_inv_def)
qed


section \<open>The line rasterizer\<close>

text \<open>
  Each loop visits its first coordinate first, moves by one in its driving axis and by
  at most one in the other. That the last coordinate visited is the end point is the
  invariant of Bresenham's error term: with \<open>j\<close> steps taken in the minor axis when
  the loop is at column \<open>x\<close>, the error is \<open>2 * dy * (x - x0 + 1) - dx * (2 * j + 1)\<close>
  and lies in \<open>(2 * dy - 2 * dx, 2 * dy]\<close>, which at the last column leaves \<open>j = dy\<close>.
\<close>

lemma Shallow_visits_Nil: "x1 < x \<Longrightarrow> Shallow_visits x1 dx dy step x y error = []"
  by (simp add: Shallow_visits.simps [of x1 dx dy step x y error])

lemma Shallow_visits_Cons:
  "x \<le> x1 \<Longrightarrow> Shallow_visits x1 dx dy step x y error =
     (x, y) # Shallow_visits x1 dx dy step (x + 1)
                (if error > 0 then y + step else y)
                ((if error > 0 then error - 2 * dx else error) + 2 * dy)"
  by (simp add: Shallow_visits.simps [of x1 dx dy step x y error])

lemma Steep_visits_Nil: "y1 < y \<Longrightarrow> Steep_visits y1 dx dy step x y error = []"
  by (simp add: Steep_visits.simps [of y1 dx dy step x y error])

lemma Steep_visits_Cons:
  "y \<le> y1 \<Longrightarrow> Steep_visits y1 dx dy step x y error =
     (x, y) # Steep_visits y1 dx dy step
                (if error > 0 then x + step else x) (y + 1)
                ((if error > 0 then error - 2 * dy else error) + 2 * dx)"
  by (simp add: Steep_visits.simps [of y1 dx dy step x y error])

lemma no_gaps_Cons:
  "no_gaps (p # ps) \<longleftrightarrow>
     ps = [] \<or> (\<bar>fst (hd ps) - fst p\<bar> \<le> 1 \<and> \<bar>snd (hd ps) - snd p\<bar> \<le> 1 \<and> no_gaps ps)"
  by (cases ps) simp_all

lemma Shallow_visits_hd:
  "x \<le> x1 \<Longrightarrow> hd (Shallow_visits x1 dx dy step x y error) = (x, y)"
  by (simp add: Shallow_visits_Cons)

lemma Steep_visits_hd:
  "y \<le> y1 \<Longrightarrow> hd (Steep_visits y1 dx dy step x y error) = (x, y)"
  by (simp add: Steep_visits_Cons)

lemma Shallow_visits_no_gaps:
  assumes "\<bar>step\<bar> \<le> 1"
  shows "no_gaps (Shallow_visits x1 dx dy step x y error)"
  using assms
proof (induction x1 dx dy step x y error rule: Shallow_visits.induct)
  case (1 x1 dx dy step x y error)
  show ?case
  proof (cases "x \<le> x1")
    case False
    then show ?thesis by (simp add: Shallow_visits_Nil)
  next
    case True
    let ?y = "if error > 0 then y + step else y"
    let ?e = "(if error > 0 then error - 2 * dx else error) + 2 * dy"
    have ih: "no_gaps (Shallow_visits x1 dx dy step (x + 1) ?y ?e)"
      using "1.IH" [of "(?y, if error > 0 then error - 2 * dx else error)" ?y
                       "if error > 0 then error - 2 * dx else error" ?e] True "1.prems"
      by simp
    show ?thesis
    proof (cases "x + 1 \<le> x1")
      case False
      then show ?thesis using True by (simp add: Shallow_visits_Cons Shallow_visits_Nil)
    next
      case next_in: True
      have "hd (Shallow_visits x1 dx dy step (x + 1) ?y ?e) = (x + 1, ?y)"
        by (rule Shallow_visits_hd [OF next_in])
      then show ?thesis
        using True ih "1.prems"
        by (subst Shallow_visits_Cons [OF True]) (simp add: no_gaps_Cons)
    qed
  qed
qed

lemma Steep_visits_no_gaps:
  assumes "\<bar>step\<bar> \<le> 1"
  shows "no_gaps (Steep_visits y1 dx dy step x y error)"
  using assms
proof (induction y1 dx dy step x y error rule: Steep_visits.induct)
  case (1 y1 dx dy step x y error)
  show ?case
  proof (cases "y \<le> y1")
    case False
    then show ?thesis by (simp add: Steep_visits_Nil)
  next
    case True
    let ?x = "if error > 0 then x + step else x"
    let ?e = "(if error > 0 then error - 2 * dy else error) + 2 * dx"
    have ih: "no_gaps (Steep_visits y1 dx dy step ?x (y + 1) ?e)"
      using "1.IH" [of "(?x, if error > 0 then error - 2 * dy else error)" ?x
                       "if error > 0 then error - 2 * dy else error" ?e] True "1.prems"
      by simp
    show ?thesis
    proof (cases "y + 1 \<le> y1")
      case False
      then show ?thesis using True by (simp add: Steep_visits_Cons Steep_visits_Nil)
    next
      case next_in: True
      have "hd (Steep_visits y1 dx dy step ?x (y + 1) ?e) = (?x, y + 1)"
        by (rule Steep_visits_hd [OF next_in])
      then show ?thesis
        using True ih "1.prems"
        by (subst Steep_visits_Cons [OF True]) (simp add: no_gaps_Cons)
    qed
  qed
qed

lemma bresenham_end:
  fixes d e j k :: int
  assumes "0 < d" "k - 2 * d < e" "e \<le> k" "e = k * (d + 1) - d * (2 * j + 1)" "k = 2 * c"
  shows "j = c"
proof -
  have "d * (2 * c - 2 * j - 1) = e - k"
    using assms(4,5) by (simp add: algebra_simps)
  then have le: "d * (2 * c - 2 * j - 1) \<le> 0" and gt: "d * (- 2) < d * (2 * c - 2 * j - 1)"
    using assms(2,3) by simp_all
  have "2 * c - 2 * j - 1 \<le> 0"
    using le assms(1) by (simp add: mult_le_0_iff)
  moreover have "- 2 < 2 * c - 2 * j - 1"
    using gt assms(1) by (simp only: mult_less_cancel_left_pos)
  ultimately show ?thesis by linarith
qed

lemma Shallow_visits_last:
  assumes "x \<le> x1" "0 < dx" "0 \<le> dy" "dy \<le> dx" "x1 - x0 = dx"
    and "e = 2 * dy * (x - x0 + 1) - dx * (2 * j + 1)"
    and "2 * dy - 2 * dx < e" "e \<le> 2 * dy"
  shows "last (Shallow_visits x1 dx dy step x (y0 + step * j) e) = (x1, y0 + step * dy)"
  using assms
proof (induction "nat (x1 - x)" arbitrary: x j e)
  case 0
  then have x: "x = x1" by simp
  have "j = dy"
  proof (rule bresenham_end [of dx "2 * dy" e j dy])
    show "0 < dx" by fact
    show "2 * dy - 2 * dx < e" by fact
    show "e \<le> 2 * dy" by fact
    show "e = 2 * dy * (dx + 1) - dx * (2 * j + 1)"
      using "0.prems"(5,6) x by simp
    show "2 * dy = 2 * dy" by simp
  qed
  then show ?case
    using x by (simp add: Shallow_visits_Cons Shallow_visits_Nil)
next
  case (Suc n)
  then have lt: "x + 1 \<le> x1" by linarith
  let ?j = "if e > 0 then j + 1 else j"
  let ?e = "(if e > 0 then e - 2 * dx else e) + 2 * dy"
  have n: "n = nat (x1 - (x + 1))" using Suc.hyps(2) by linarith
  have e': "?e = 2 * dy * (x + 1 - x0 + 1) - dx * (2 * ?j + 1)"
    using Suc.prems(6) by (simp add: algebra_simps)
  have lo: "2 * dy - 2 * dx < ?e" using Suc.prems(3,4,7,8) by auto
  have hi: "?e \<le> 2 * dy" using Suc.prems(3,4,7,8) by auto
  have ih: "last (Shallow_visits x1 dx dy step (x + 1) (y0 + step * ?j) ?e) = (x1, y0 + step * dy)"
    by (rule Suc.hyps(1) [OF n lt Suc.prems(2,3,4,5) e' lo hi])
  have y: "(if e > 0 then y0 + step * j + step else y0 + step * j) = y0 + step * ?j"
    by (simp add: algebra_simps)
  have ne: "Shallow_visits x1 dx dy step (x + 1) (y0 + step * ?j) ?e \<noteq> []"
    using lt by (simp add: Shallow_visits_Cons)
  show ?case
    using ih ne y by (subst Shallow_visits_Cons [OF Suc.prems(1)]) simp
qed

lemma Steep_visits_last:
  assumes "y \<le> y1" "0 \<le> dx" "dx < dy" "y1 - y0 = dy"
    and "e = 2 * dx * (y - y0 + 1) - dy * (2 * j + 1)"
    and "2 * dx - 2 * dy < e" "e \<le> 2 * dx"
  shows "last (Steep_visits y1 dx dy step (x0 + step * j) y e) = (x0 + step * dx, y1)"
  using assms
proof (induction "nat (y1 - y)" arbitrary: y j e)
  case 0
  then have y: "y = y1" by simp
  have "j = dx"
  proof (rule bresenham_end [of dy "2 * dx" e j dx])
    show "0 < dy" using "0.prems"(2,3) by linarith
    show "2 * dx - 2 * dy < e" by fact
    show "e \<le> 2 * dx" by fact
    show "e = 2 * dx * (dy + 1) - dy * (2 * j + 1)"
      using "0.prems"(4,5) y by simp
    show "2 * dx = 2 * dx" by simp
  qed
  then show ?case
    using y by (simp add: Steep_visits_Cons Steep_visits_Nil)
next
  case (Suc n)
  then have lt: "y + 1 \<le> y1" by linarith
  let ?j = "if e > 0 then j + 1 else j"
  let ?e = "(if e > 0 then e - 2 * dy else e) + 2 * dx"
  have n: "n = nat (y1 - (y + 1))" using Suc.hyps(2) by linarith
  have e': "?e = 2 * dx * (y + 1 - y0 + 1) - dy * (2 * ?j + 1)"
    using Suc.prems(5) by (simp add: algebra_simps)
  have lo: "2 * dx - 2 * dy < ?e" using Suc.prems(2,3,6,7) by auto
  have hi: "?e \<le> 2 * dx" using Suc.prems(2,3,6,7) by auto
  have ih: "last (Steep_visits y1 dx dy step (x0 + step * ?j) (y + 1) ?e) = (x0 + step * dx, y1)"
    by (rule Suc.hyps(1) [OF n lt Suc.prems(2,3,4) e' lo hi])
  have x: "(if e > 0 then x0 + step * j + step else x0 + step * j) = x0 + step * ?j"
    by (simp add: algebra_simps)
  have ne: "Steep_visits y1 dx dy step (x0 + step * ?j) (y + 1) ?e \<noteq> []"
    using lt by (simp add: Steep_visits_Cons)
  show ?case
    using ih ne x by (subst Steep_visits_Cons [OF Suc.prems(1)]) simp
qed

lemma Paint_Line_Shallow_visits_ends:
  assumes "x0 \<le> x1" "dx = x1 - x0" "dy = \<bar>y1 - y0\<bar>" "dy \<le> dx"
  shows "Paint_Line_Shallow_visits x0 y0 x1 y1 dx dy \<noteq> [] \<and>
         hd (Paint_Line_Shallow_visits x0 y0 x1 y1 dx dy) = (x0, y0) \<and>
         last (Paint_Line_Shallow_visits x0 y0 x1 y1 dx dy) = (x1, y1) \<and>
         no_gaps (Paint_Line_Shallow_visits x0 y0 x1 y1 dx dy)"
proof -
  let ?step = "if y1 < y0 then - 1 else (1::int)"
  let ?ps = "Shallow_visits x1 dx dy ?step x0 y0 (2 * dy - dx)"
  have eq: "Paint_Line_Shallow_visits x0 y0 x1 y1 dx dy = ?ps"
    by (simp add: Paint_Line_Shallow_visits_def)
  have ne: "?ps \<noteq> []" and h: "hd ?ps = (x0, y0)"
    using assms(1) by (simp_all add: Shallow_visits_Cons)
  have g: "no_gaps ?ps"
    by (rule Shallow_visits_no_gaps) simp
  have l: "last ?ps = (x1, y1)"
  proof (cases "dx = 0")
    case True
    then have "x0 = x1" "y0 = y1" using assms by auto
    then show ?thesis using True assms(3) by (simp add: Shallow_visits_Cons Shallow_visits_Nil)
  next
    case False
    then have pos: "0 < dx" using assms by linarith
    have "last (Shallow_visits x1 dx dy ?step x0 (y0 + ?step * 0) (2 * dy - dx)) = (x1, y0 + ?step * dy)"
      by (rule Shallow_visits_last [where ?x0.0 = x0]) (use assms pos in auto)
    moreover have "y0 + ?step * dy = y1" using assms(3) by auto
    ultimately show ?thesis by simp
  qed
  show ?thesis using eq ne h l g by simp
qed

lemma Paint_Line_Steep_visits_ends:
  assumes "y0 \<le> y1" "dy = y1 - y0" "dx = \<bar>x1 - x0\<bar>" "dx < dy"
  shows "Paint_Line_Steep_visits x0 y0 x1 y1 dx dy \<noteq> [] \<and>
         hd (Paint_Line_Steep_visits x0 y0 x1 y1 dx dy) = (x0, y0) \<and>
         last (Paint_Line_Steep_visits x0 y0 x1 y1 dx dy) = (x1, y1) \<and>
         no_gaps (Paint_Line_Steep_visits x0 y0 x1 y1 dx dy)"
proof -
  let ?step = "if x1 < x0 then - 1 else (1::int)"
  let ?ps = "Steep_visits y1 dx dy ?step x0 y0 (2 * dx - dy)"
  have eq: "Paint_Line_Steep_visits x0 y0 x1 y1 dx dy = ?ps"
    by (simp add: Paint_Line_Steep_visits_def)
  have ne: "?ps \<noteq> []" and h: "hd ?ps = (x0, y0)"
    using assms(1) by (simp_all add: Steep_visits_Cons)
  have g: "no_gaps ?ps"
    by (rule Steep_visits_no_gaps) simp
  have "last (Steep_visits y1 dx dy ?step (x0 + ?step * 0) y0 (2 * dx - dy)) = (x0 + ?step * dx, y1)"
    by (rule Steep_visits_last [where ?y0.0 = y0]) (use assms in auto)
  moreover have "x0 + ?step * dx = x1" using assms(3) by auto
  ultimately have l: "last ?ps = (x1, y1)" by simp
  show ?thesis using eq ne h l g by simp
qed

lemma Paint_Line_visits_ends:
  "Paint_Line_visits x0 y0 x1 y1 \<noteq> [] \<and>
   no_gaps (Paint_Line_visits x0 y0 x1 y1) \<and>
   (hd (Paint_Line_visits x0 y0 x1 y1) = (x0, y0) \<and> last (Paint_Line_visits x0 y0 x1 y1) = (x1, y1) \<or>
    hd (Paint_Line_visits x0 y0 x1 y1) = (x1, y1) \<and> last (Paint_Line_visits x0 y0 x1 y1) = (x0, y0))"
proof -
  consider (a) "\<bar>y1 - y0\<bar> \<le> \<bar>x1 - x0\<bar>" "x0 \<le> x1"
    | (b) "\<bar>y1 - y0\<bar> \<le> \<bar>x1 - x0\<bar>" "\<not> x0 \<le> x1"
    | (c) "\<not> \<bar>y1 - y0\<bar> \<le> \<bar>x1 - x0\<bar>" "y0 \<le> y1"
    | (d) "\<not> \<bar>y1 - y0\<bar> \<le> \<bar>x1 - x0\<bar>" "\<not> y0 \<le> y1"
    by blast
  then show ?thesis
  proof cases
    case a
    have "Paint_Line_visits x0 y0 x1 y1 = Paint_Line_Shallow_visits x0 y0 x1 y1 \<bar>x1 - x0\<bar> \<bar>y1 - y0\<bar>"
      using a by (simp add: Paint_Line_visits_def)
    moreover have "Paint_Line_Shallow_visits x0 y0 x1 y1 \<bar>x1 - x0\<bar> \<bar>y1 - y0\<bar> \<noteq> [] \<and>
         hd (Paint_Line_Shallow_visits x0 y0 x1 y1 \<bar>x1 - x0\<bar> \<bar>y1 - y0\<bar>) = (x0, y0) \<and>
         last (Paint_Line_Shallow_visits x0 y0 x1 y1 \<bar>x1 - x0\<bar> \<bar>y1 - y0\<bar>) = (x1, y1) \<and>
         no_gaps (Paint_Line_Shallow_visits x0 y0 x1 y1 \<bar>x1 - x0\<bar> \<bar>y1 - y0\<bar>)"
      by (rule Paint_Line_Shallow_visits_ends) (use a in auto)
    ultimately show ?thesis by simp
  next
    case b
    have "Paint_Line_visits x0 y0 x1 y1 = Paint_Line_Shallow_visits x1 y1 x0 y0 \<bar>x1 - x0\<bar> \<bar>y1 - y0\<bar>"
      using b by (simp add: Paint_Line_visits_def)
    moreover have "Paint_Line_Shallow_visits x1 y1 x0 y0 \<bar>x1 - x0\<bar> \<bar>y1 - y0\<bar> \<noteq> [] \<and>
         hd (Paint_Line_Shallow_visits x1 y1 x0 y0 \<bar>x1 - x0\<bar> \<bar>y1 - y0\<bar>) = (x1, y1) \<and>
         last (Paint_Line_Shallow_visits x1 y1 x0 y0 \<bar>x1 - x0\<bar> \<bar>y1 - y0\<bar>) = (x0, y0) \<and>
         no_gaps (Paint_Line_Shallow_visits x1 y1 x0 y0 \<bar>x1 - x0\<bar> \<bar>y1 - y0\<bar>)"
      by (rule Paint_Line_Shallow_visits_ends) (use b in auto)
    ultimately show ?thesis by simp
  next
    case c
    have "Paint_Line_visits x0 y0 x1 y1 = Paint_Line_Steep_visits x0 y0 x1 y1 \<bar>x1 - x0\<bar> \<bar>y1 - y0\<bar>"
      using c by (simp add: Paint_Line_visits_def)
    moreover have "Paint_Line_Steep_visits x0 y0 x1 y1 \<bar>x1 - x0\<bar> \<bar>y1 - y0\<bar> \<noteq> [] \<and>
         hd (Paint_Line_Steep_visits x0 y0 x1 y1 \<bar>x1 - x0\<bar> \<bar>y1 - y0\<bar>) = (x0, y0) \<and>
         last (Paint_Line_Steep_visits x0 y0 x1 y1 \<bar>x1 - x0\<bar> \<bar>y1 - y0\<bar>) = (x1, y1) \<and>
         no_gaps (Paint_Line_Steep_visits x0 y0 x1 y1 \<bar>x1 - x0\<bar> \<bar>y1 - y0\<bar>)"
      by (rule Paint_Line_Steep_visits_ends) (use c in auto)
    ultimately show ?thesis by simp
  next
    case d
    have "Paint_Line_visits x0 y0 x1 y1 = Paint_Line_Steep_visits x1 y1 x0 y0 \<bar>x1 - x0\<bar> \<bar>y1 - y0\<bar>"
      using d by (simp add: Paint_Line_visits_def)
    moreover have "Paint_Line_Steep_visits x1 y1 x0 y0 \<bar>x1 - x0\<bar> \<bar>y1 - y0\<bar> \<noteq> [] \<and>
         hd (Paint_Line_Steep_visits x1 y1 x0 y0 \<bar>x1 - x0\<bar> \<bar>y1 - y0\<bar>) = (x1, y1) \<and>
         last (Paint_Line_Steep_visits x1 y1 x0 y0 \<bar>x1 - x0\<bar> \<bar>y1 - y0\<bar>) = (x0, y0) \<and>
         no_gaps (Paint_Line_Steep_visits x1 y1 x0 y0 \<bar>x1 - x0\<bar> \<bar>y1 - y0\<bar>)"
      by (rule Paint_Line_Steep_visits_ends) (use d in auto)
    ultimately show ?thesis by simp
  qed
qed

lemma Paint_Line_visits_point: "Paint_Line_visits x y x y = [(x, y)]"
  by (simp add: Paint_Line_visits_def Paint_Line_Shallow_visits_def
        Shallow_visits_Cons Shallow_visits_Nil)

section \<open>Machine integers in the line painter\<close>

text \<open>
  In the shallow loop the minor coordinate is at most as far from its start as the major
  one, and the error stays between \<open>2 * dy - 2 * dx\<close> and \<open>2 * dy\<close>; so with
  coordinates of at most \<open>2^28\<close> in absolute value nothing leaves the 32-bit range.
\<close>

lemma Shallow_in_range_bounded:
  assumes "0 \<le> dy" "dy \<le> dx" "dx \<le> 536870912" "\<bar>step\<bar> \<le> 1"
    and "\<bar>x1\<bar> \<le> 268435456" "\<bar>y0\<bar> \<le> 268435456" "x1 - x0 = dx"
    and "x0 \<le> x" "\<bar>y - y0\<bar> \<le> x - x0" "2 * dy - 2 * dx \<le> e" "e \<le> 2 * dy"
  shows "Shallow_in_range x1 dx dy step x y e"
  using assms(8-)
proof (induction "nat (x1 + 1 - x)" arbitrary: x y e)
  case 0
  then have "\<not> x \<le> x1" by simp
  then show ?case by (simp add: Shallow_in_range.simps [of x1 dx dy step x y e])
next
  case (Suc n)
  then have le: "x \<le> x1" by linarith
  let ?y = "if e > 0 then y + step else y"
  let ?e = "(if e > 0 then e - 2 * dx else e) + 2 * dy"
  have n: "n = nat (x1 + 1 - (x + 1))" using Suc.hyps(2) by linarith
  have i1: "x0 \<le> x + 1" using Suc.prems(1) by simp
  have i2: "\<bar>?y - y0\<bar> \<le> x + 1 - x0" using Suc.prems(2) assms(4) by auto
  have i3: "2 * dy - 2 * dx \<le> ?e" using Suc.prems(3,4) assms(1,2) by auto
  have i4: "?e \<le> 2 * dy" using Suc.prems(3,4) assms(1,2) by auto
  have ih: "Shallow_in_range x1 dx dy step (x + 1) ?y ?e"
    by (rule Suc.hyps(1) [OF n i1 i2 i3 i4])
  have f1: "e > 0 \<longrightarrow> int_fits (y + step) \<and> int_fits (2 * dx) \<and> int_fits (e - 2 * dx)"
    using Suc.prems assms(1-7) le by (auto simp: int_fits_def)
  have f2: "int_fits (2 * dy)" using assms(1-3) by (simp add: int_fits_def)
  have f3: "int_fits ?e" using i3 i4 assms(1-3) by (simp add: int_fits_def)
  have f4: "int_fits (x + 1)"
    using le Suc.prems(1) assms(1-7) unfolding int_fits_def by arith
  show ?case
    using le ih f1 f2 f3 f4
    by (subst Shallow_in_range.simps) (cases "0 < e"; simp add: Let_def)
qed

lemma Steep_in_range_bounded:
  assumes "0 \<le> dx" "dx \<le> dy" "dy \<le> 536870912" "\<bar>step\<bar> \<le> 1"
    and "\<bar>y1\<bar> \<le> 268435456" "\<bar>x0\<bar> \<le> 268435456" "y1 - y0 = dy"
    and "y0 \<le> y" "\<bar>x - x0\<bar> \<le> y - y0" "2 * dx - 2 * dy \<le> e" "e \<le> 2 * dx"
  shows "Steep_in_range y1 dx dy step x y e"
  using assms(8-)
proof (induction "nat (y1 + 1 - y)" arbitrary: x y e)
  case 0
  then have "\<not> y \<le> y1" by simp
  then show ?case by (simp add: Steep_in_range.simps [of y1 dx dy step x y e])
next
  case (Suc n)
  then have le: "y \<le> y1" by linarith
  let ?x = "if e > 0 then x + step else x"
  let ?e = "(if e > 0 then e - 2 * dy else e) + 2 * dx"
  have n: "n = nat (y1 + 1 - (y + 1))" using Suc.hyps(2) by linarith
  have i1: "y0 \<le> y + 1" using Suc.prems(1) by simp
  have i2: "\<bar>?x - x0\<bar> \<le> y + 1 - y0" using Suc.prems(2) assms(4) by auto
  have i3: "2 * dx - 2 * dy \<le> ?e" using Suc.prems(3,4) assms(1,2) by auto
  have i4: "?e \<le> 2 * dx" using Suc.prems(3,4) assms(1,2) by auto
  have ih: "Steep_in_range y1 dx dy step ?x (y + 1) ?e"
    by (rule Suc.hyps(1) [OF n i1 i2 i3 i4])
  have f1: "e > 0 \<longrightarrow> int_fits (x + step) \<and> int_fits (2 * dy) \<and> int_fits (e - 2 * dy)"
    using Suc.prems assms(1-7) le by (auto simp: int_fits_def)
  have f2: "int_fits (2 * dx)" using assms(1-3) by (simp add: int_fits_def)
  have f3: "int_fits ?e" using i3 i4 assms(1-3) by (simp add: int_fits_def)
  have f4: "int_fits (y + 1)"
    using le Suc.prems(1) assms(1-7) unfolding int_fits_def by arith
  show ?case
    using le ih f1 f2 f3 f4
    by (subst Steep_in_range.simps) (cases "0 < e"; simp add: Let_def)
qed

lemma Paint_Line_Shallow_in_range_bounded:
  assumes "\<bar>x0\<bar> \<le> 268435456" "\<bar>y0\<bar> \<le> 268435456" "\<bar>x1\<bar> \<le> 268435456" "\<bar>y1\<bar> \<le> 268435456"
    and "x0 \<le> x1" "dx = x1 - x0" "dy = \<bar>y1 - y0\<bar>" "dy \<le> dx"
  shows "Paint_Line_Shallow_in_range x0 y0 x1 y1 dx dy"
proof -
  have "Shallow_in_range x1 dx dy (if y1 < y0 then - 1 else 1) x0 y0 (2 * dy - dx)"
    by (rule Shallow_in_range_bounded [where ?x0.0 = x0 and ?y0.0 = y0]) (use assms in auto)
  moreover have "int_fits (2 * dy)" "int_fits (2 * dy - dx)"
    using assms unfolding int_fits_def by arith+
  ultimately show ?thesis by (simp add: Paint_Line_Shallow_in_range_def)
qed

lemma Paint_Line_Steep_in_range_bounded:
  assumes "\<bar>x0\<bar> \<le> 268435456" "\<bar>y0\<bar> \<le> 268435456" "\<bar>x1\<bar> \<le> 268435456" "\<bar>y1\<bar> \<le> 268435456"
    and "y0 \<le> y1" "dy = y1 - y0" "dx = \<bar>x1 - x0\<bar>" "dx \<le> dy"
  shows "Paint_Line_Steep_in_range x0 y0 x1 y1 dx dy"
proof -
  have "Steep_in_range y1 dx dy (if x1 < x0 then - 1 else 1) x0 y0 (2 * dx - dy)"
    by (rule Steep_in_range_bounded [where ?x0.0 = x0 and ?y0.0 = y0]) (use assms in auto)
  moreover have "int_fits (2 * dx)" "int_fits (2 * dx - dy)"
    using assms unfolding int_fits_def by arith+
  ultimately show ?thesis by (simp add: Paint_Line_Steep_in_range_def)
qed

lemma Paint_Line_in_range_bounded:
  assumes "\<bar>x0\<bar> \<le> 268435456" "\<bar>y0\<bar> \<le> 268435456" "\<bar>x1\<bar> \<le> 268435456" "\<bar>y1\<bar> \<le> 268435456"
  shows "Paint_Line_in_range x0 y0 x1 y1"
proof -
  have f: "int_fits x0" "int_fits y0" "int_fits x1" "int_fits y1"
    "int_fits (x1 - x0)" "int_fits \<bar>x1 - x0\<bar>" "int_fits (y1 - y0)" "int_fits \<bar>y1 - y0\<bar>"
    using assms by (auto simp: int_fits_def)
  consider (a) "\<bar>y1 - y0\<bar> \<le> \<bar>x1 - x0\<bar>" "x0 \<le> x1"
    | (b) "\<bar>y1 - y0\<bar> \<le> \<bar>x1 - x0\<bar>" "\<not> x0 \<le> x1"
    | (c) "\<not> \<bar>y1 - y0\<bar> \<le> \<bar>x1 - x0\<bar>" "y0 \<le> y1"
    | (d) "\<not> \<bar>y1 - y0\<bar> \<le> \<bar>x1 - x0\<bar>" "\<not> y0 \<le> y1"
    by blast
  then show ?thesis
  proof cases
    case a
    have "Paint_Line_Shallow_in_range x0 y0 x1 y1 \<bar>x1 - x0\<bar> \<bar>y1 - y0\<bar>"
      by (rule Paint_Line_Shallow_in_range_bounded) (use a assms in auto)
    then show ?thesis using a f by (simp add: Paint_Line_in_range_def)
  next
    case b
    have "Paint_Line_Shallow_in_range x1 y1 x0 y0 \<bar>x1 - x0\<bar> \<bar>y1 - y0\<bar>"
      by (rule Paint_Line_Shallow_in_range_bounded) (use b assms in auto)
    then show ?thesis using b f by (simp add: Paint_Line_in_range_def)
  next
    case c
    have "Paint_Line_Steep_in_range x0 y0 x1 y1 \<bar>x1 - x0\<bar> \<bar>y1 - y0\<bar>"
      by (rule Paint_Line_Steep_in_range_bounded) (use c assms in auto)
    then show ?thesis using c f by (simp add: Paint_Line_in_range_def)
  next
    case d
    have "Paint_Line_Steep_in_range x1 y1 x0 y0 \<bar>x1 - x0\<bar> \<bar>y1 - y0\<bar>"
      by (rule Paint_Line_Steep_in_range_bounded) (use d assms in auto)
    then show ?thesis using d f by (simp add: Paint_Line_in_range_def)
  qed
qed

lemma Paint_Line_in_range_point:
  "Paint_Line_in_range x y x y \<longleftrightarrow> int_fits x \<and> int_fits y \<and> int_fits (x + 1)"
proof -
  have "Shallow_in_range x 0 0 1 x y 0 \<longleftrightarrow> int_fits (x + 1)"
    by (simp add: Shallow_in_range.simps [of x 0 0 1 x y 0]
          Shallow_in_range.simps [of x 0 0 1 "x + 1" y 0] int_fits_def)
  then show ?thesis
    by (auto simp: Paint_Line_in_range_def Paint_Line_Shallow_in_range_def int_fits_def)
qed

text \<open>
  Claim C7, as amended. For every pair of end points at which no value \<^verbatim>\<open>Paint_Line\<close>
  computes overflows a 32-bit \<^verbatim>\<open>int\<close> (\<open>Paint_Line_in_range\<close>; in particular whenever
  the four coordinates are at most \<open>2^28\<close> in absolute value), the program visits a
  sequence of coordinates, \<^verbatim>\<open>Paint_Line\<close> paints them in order, the sequence is not
  empty, consecutive coordinates differ by at most 1 in each axis, and its first and last
  coordinates are the two end points, in the order given or swapped. The two lines of the
  specification, from (0, 0) to (3, 7) and from (0, 0) to (7, 3), are visited as listed.

  As stated, for every pair of \<^verbatim>\<open>int\<close> end points, the claim fails: from
  (2147483646, 0) to (2147483647, 0) the loop visits both points and then increments
  \<^verbatim>\<open>x\<close> past \<^verbatim>\<open>INT_MAX\<close>, a signed overflow, with the loop test still true.
\<close>

theorem Paint_Line_no_gaps_endpoints:
  "(Paint_Line_in_range x0 y0 x1 y1 \<longrightarrow>
      (\<exists>ps. Paint_Line_visits_int32 x0 y0 x1 y1 = Some ps \<and>
            Paint_Line x0 y0 x1 y1 s = paint_points ps s \<and>
            ps \<noteq> [] \<and>
            no_gaps ps \<and>
            (hd ps = (x0, y0) \<and> last ps = (x1, y1) \<or> hd ps = (x1, y1) \<and> last ps = (x0, y0)))) \<and>
   (\<bar>x0\<bar> \<le> 268435456 \<and> \<bar>y0\<bar> \<le> 268435456 \<and> \<bar>x1\<bar> \<le> 268435456 \<and> \<bar>y1\<bar> \<le> 268435456
      \<longrightarrow> Paint_Line_in_range x0 y0 x1 y1) \<and>
   Paint_Line_visits_int32 0 0 3 7 =
     Some [(0, 0), (0, 1), (1, 2), (1, 3), (2, 4), (2, 5), (3, 6), (3, 7)] \<and>
   Paint_Line_visits_int32 0 0 7 3 =
     Some [(0, 0), (1, 0), (2, 1), (3, 1), (4, 2), (5, 2), (6, 3), (7, 3)]"
proof -
  have steep: "Paint_Line_visits 0 0 3 7 = [(0, 0), (0, 1), (1, 2), (1, 3), (2, 4), (2, 5), (3, 6), (3, 7)]"
    by (simp add: Paint_Line_visits_def Paint_Line_Steep_visits_def
          Steep_visits_Cons Steep_visits_Nil)
  have shallow: "Paint_Line_visits 0 0 7 3 = [(0, 0), (1, 0), (2, 1), (3, 1), (4, 2), (5, 2), (6, 3), (7, 3)]"
    by (simp add: Paint_Line_visits_def Paint_Line_Shallow_visits_def
          Shallow_visits_Cons Shallow_visits_Nil)
  have r1: "Paint_Line_in_range 0 0 3 7" by (rule Paint_Line_in_range_bounded) simp_all
  have r2: "Paint_Line_in_range 0 0 7 3" by (rule Paint_Line_in_range_bounded) simp_all
  have e1: "Paint_Line_visits_int32 0 0 3 7 =
     Some [(0, 0), (0, 1), (1, 2), (1, 3), (2, 4), (2, 5), (3, 6), (3, 7)]"
    using r1 steep by (simp add: Paint_Line_visits_int32_def)
  have e2: "Paint_Line_visits_int32 0 0 7 3 =
     Some [(0, 0), (1, 0), (2, 1), (3, 1), (4, 2), (5, 2), (6, 3), (7, 3)]"
    using r2 shallow by (simp add: Paint_Line_visits_int32_def)
  have b: "Paint_Line_in_range x0 y0 x1 y1"
    if "\<bar>x0\<bar> \<le> 268435456 \<and> \<bar>y0\<bar> \<le> 268435456 \<and> \<bar>x1\<bar> \<le> 268435456 \<and> \<bar>y1\<bar> \<le> 268435456"
    using that by (intro Paint_Line_in_range_bounded) simp_all
  have a: "\<exists>ps. Paint_Line_visits_int32 x0 y0 x1 y1 = Some ps \<and>
            Paint_Line x0 y0 x1 y1 s = paint_points ps s \<and>
            ps \<noteq> [] \<and>
            no_gaps ps \<and>
            (hd ps = (x0, y0) \<and> last ps = (x1, y1) \<or> hd ps = (x1, y1) \<and> last ps = (x0, y0))"
    if "Paint_Line_in_range x0 y0 x1 y1"
  proof -
    have "Paint_Line_visits_int32 x0 y0 x1 y1 = Some (Paint_Line_visits x0 y0 x1 y1)"
      using that by (simp add: Paint_Line_visits_int32_def)
    then show ?thesis
      using Paint_Line_visits_ends [of x0 y0 x1 y1] Paint_Line_paint_points [of x0 y0 x1 y1 s]
      by blast
  qed
  show ?thesis
    using a b e1 e2 by blast
qed

theorem Paint_Line_no_gaps_endpoints_witness:
  "Paint_Line_in_range (- 5) 9 2 6 \<and>
   (\<exists>ps. Paint_Line_visits_int32 (- 5) 9 2 6 = Some ps \<and>
         Paint_Line (- 5) 9 2 6 (init_world 0) = paint_points ps (init_world 0) \<and>
         ps \<noteq> [] \<and> no_gaps ps \<and>
         (hd ps = (- 5, 9) \<and> last ps = (2, 6) \<or> hd ps = (2, 6) \<and> last ps = (- 5, 9)))"
proof -
  have r: "Paint_Line_in_range (- 5) 9 2 6"
    by (rule Paint_Line_in_range_bounded) simp_all
  show ?thesis
    using r Paint_Line_no_gaps_endpoints [of "- 5" 9 2 6 "init_world 0"] by blast
qed

theorem Paint_Line_int_max_counterexample:
  "Paint_Line_visits_int32 2147483646 0 2147483647 0 = None"
proof -
  have "\<not> Shallow_in_range 2147483647 1 0 1 2147483646 0 (- 1)"
    by (simp add: Shallow_in_range.simps [of 2147483647 1 0 1 2147483646 0 "- 1"]
          Shallow_in_range.simps [of 2147483647 1 0 1 2147483647 0 "- 1"] int_fits_def)
  then have "\<not> Paint_Line_in_range 2147483646 0 2147483647 0"
    by (simp add: Paint_Line_in_range_def Paint_Line_Shallow_in_range_def)
  then show ?thesis by (simp add: Paint_Line_visits_int32_def)
qed

text \<open>
  Claim C8, as amended. A line whose start is its end \<open>(x, y)\<close>, with \<open>x\<close> below
  \<^verbatim>\<open>INT_MAX\<close> (which is what \<open>Paint_Line_in_range x y x y\<close> comes to), visits exactly that
  one coordinate, so for the line from (2, 2) to (2, 2): \<^verbatim>\<open>Paint_Line\<close> takes the shallow
  branch with \<open>dx = dy = 0\<close>, the loop runs once, and the whole call is one
  \<^verbatim>\<open>Try_Paint_Point\<close>.

  As stated, for every start that equals its end, the claim fails: at
  (2147483647, 5) the loop increments \<^verbatim>\<open>x\<close> past \<^verbatim>\<open>INT_MAX\<close> after the first visit
  and does not stop there.
\<close>

theorem Paint_Line_zero_length:
  "(Paint_Line_in_range x y x y \<longrightarrow>
      Paint_Line_visits_int32 x y x y = Some [(x, y)] \<and>
      Paint_Line_visits x y x y = Paint_Line_Shallow_visits x y x y 0 0 \<and>
      Paint_Line x y x y s = Paint_Line_Shallow x y x y 0 0 s \<and>
      Paint_Line x y x y s = map_option snd (Try_Paint_Point x y s)) \<and>
   (Paint_Line_in_range x y x y \<longleftrightarrow> int_fits x \<and> int_fits y \<and> int_fits (x + 1)) \<and>
   Paint_Line_visits_int32 2 2 2 2 = Some [(2, 2)]"
proof -
  have v: "Paint_Line_visits x y x y = [(x, y)]" for x y
    by (rule Paint_Line_visits_point)
  have c: "Paint_Line_visits x y x y = Paint_Line_Shallow_visits x y x y 0 0"
    by (simp add: Paint_Line_visits_def)
  have d: "Paint_Line x y x y s = Paint_Line_Shallow x y x y 0 0 s"
    by (simp add: Paint_Line_def)
  have "Paint_Line x y x y s = paint_points [(x, y)] s"
    using Paint_Line_paint_points [of x y x y s] v by simp
  then have p: "Paint_Line x y x y s = map_option snd (Try_Paint_Point x y s)"
    by (simp split: option.splits)
  have i: "Paint_Line_visits_int32 x y x y = Some [(x, y)]" if "Paint_Line_in_range x y x y"
    using that v by (simp add: Paint_Line_visits_int32_def)
  have "Paint_Line_in_range 2 2 2 2"
    by (simp add: Paint_Line_in_range_point int_fits_def)
  then have t: "Paint_Line_visits_int32 2 2 2 2 = Some [(2, 2)]"
    using v by (simp add: Paint_Line_visits_int32_def)
  show ?thesis
    using i c d p t Paint_Line_in_range_point [of x y] by blast
qed

theorem Paint_Line_zero_length_witness:
  "Paint_Line_in_range 2 2 2 2 \<and>
   Paint_Line_visits_int32 2 2 2 2 = Some [(2, 2)] \<and>
   Paint_Line 2 2 2 2 (init_world 0) = map_option snd (Try_Paint_Point 2 2 (init_world 0))"
proof -
  have r: "Paint_Line_in_range 2 2 2 2"
    by (simp add: Paint_Line_in_range_point int_fits_def)
  show ?thesis
    using r Paint_Line_zero_length [of 2 2 "init_world 0"] by blast
qed

theorem Paint_Line_zero_length_int_max_counterexample:
  "Paint_Line_visits_int32 2147483647 5 2147483647 5 = None"
proof -
  have "\<not> Paint_Line_in_range 2147483647 5 2147483647 5"
    by (simp add: Paint_Line_in_range_point int_fits_def)
  then show ?thesis by (simp add: Paint_Line_visits_int32_def)
qed

section \<open>Pacing\<close>

text \<open>
  Painting leaves the rate alone. With a rate of 0 the frame tick is the painting and the
  reset of the redraw flag, whatever the clock says and whatever function it was given
  to step the simulation.
\<close>

lemma Try_Paint_Point_rate:
  assumes "Try_Paint_Point x y s = Some (b, s')"
  shows "steps_per_second s' = steps_per_second s"
  using assms
  by (auto simp: Try_Paint_Point_def Add_Rendered_Point_def split: if_splits option.splits)

lemma paint_points_rate:
  assumes "paint_points ps s = Some s'"
  shows "steps_per_second s' = steps_per_second s"
  using assms
proof (induction ps arbitrary: s)
  case Nil
  then show ?case by simp
next
  case (Cons p ps)
  obtain x y where p: "p = (x, y)" by (cases p)
  from Cons.prems p obtain b s1 where s1: "Try_Paint_Point x y s = Some (b, s1)"
    "paint_points ps s1 = Some s'"
    by (auto split: option.splits)
  show ?case
    using Cons.IH [OF s1(2)] Try_Paint_Point_rate [OF s1(1)] by simp
qed

lemma PaintCells_rate:
  assumes "PaintCells s = Some s'"
  shows "steps_per_second s' = steps_per_second s"
proof (cases "mouseDown s")
  case False
  then show ?thesis using assms by (auto simp: PaintCells_def)
next
  case True
  let ?cx = "float_to_int (mouseX s / real_of_int RENDER_SCALE)"
  let ?cy = "float_to_int (mouseY s / real_of_int RENDER_SCALE)"
  show ?thesis
  proof (cases "mouseWasDown s")
    case True
    with \<open>mouseDown s\<close> assms obtain s1 where
      "paint_points (Paint_Line_visits (lastMouseCellX s) (lastMouseCellY s) ?cx ?cy) s = Some s1"
      "steps_per_second s' = steps_per_second s1"
      by (auto simp: PaintCells_def Let_def Paint_Line_paint_points split: option.splits)
    then show ?thesis using paint_points_rate by simp
  next
    case False
    with \<open>mouseDown s\<close> assms obtain b s1 where
      "Try_Paint_Point ?cx ?cy s = Some (b, s1)" "steps_per_second s' = steps_per_second s1"
      by (auto simp: PaintCells_def Let_def split: option.splits)
    then show ?thesis using Try_Paint_Point_rate by simp
  qed
qed

lemma SDL_AppIterate_with_paused:
  assumes "steps_per_second s = 0"
  shows "SDL_AppIterate_with step now s =
     (case PaintCells s of
        None \<Rightarrow> None
      | Some s1 \<Rightarrow> Some (if needs_new_render s1 then s1\<lparr>needs_new_render := False\<rparr> else s1))"
proof (cases "PaintCells s")
  case None
  then show ?thesis by (simp add: SDL_AppIterate_with_def)
next
  case (Some s1)
  then have "steps_per_second s1 = 0"
    using PaintCells_rate assms by simp
  then show ?thesis using Some by (simp add: SDL_AppIterate_with_def)
qed

lemma SDL_AppIterate_with_paused_rate:
  assumes "steps_per_second s = 0" "SDL_AppIterate_with step now s = Some s'"
  shows "steps_per_second s' = 0"
proof -
  from assms obtain s1 where s1: "PaintCells s = Some s1"
    "s' = (if needs_new_render s1 then s1\<lparr>needs_new_render := False\<rparr> else s1)"
    by (auto simp: SDL_AppIterate_with_paused split: option.splits)
  have "steps_per_second s1 = 0" using PaintCells_rate [OF s1(1)] assms(1) by simp
  then show ?thesis using s1(2) by simp
qed

lemma SDL_AppEvent_paused:
  assumes "steps_per_second s = 0" "keeps_paused (Event e)"
  shows "steps_per_second (snd (SDL_AppEvent e s)) = 0"
  using assms by (cases e) (auto simp: Let_def MAX_STEPS_PER_SECOND_def)

lemma run_with_paused_rate:
  assumes "steps_per_second s = 0" "list_all keeps_paused ins" "run_with step ins s = Some s'"
  shows "steps_per_second s' = 0"
  using assms
proof (induction ins arbitrary: s)
  case Nil
  then show ?case by simp
next
  case (Cons i ins)
  have rest: "list_all keeps_paused ins" and this_one: "keeps_paused i"
    using Cons.prems(2) by simp_all
  show ?case
  proof (cases i)
    case (Event e)
    obtain r s1 where e: "SDL_AppEvent e s = (r, s1)" by (cases "SDL_AppEvent e s")
    have z: "steps_per_second s1 = 0"
      using SDL_AppEvent_paused [OF Cons.prems(1), of e] this_one Event e by simp
    show ?thesis
    proof (cases r)
      case SDL_APP_CONTINUE
      then have "run_with step ins s1 = Some s'" using Cons.prems(3) Event e by simp
      then show ?thesis by (rule Cons.IH [OF z rest])
    qed (use Cons.prems(3) Event e z in auto)
  next
    case (Frame now)
    from Cons.prems(3) Frame obtain s1 where s1: "SDL_AppIterate_with step now s = Some s1"
      "run_with step ins s1 = Some s'"
      by (auto split: option.splits)
    have z: "steps_per_second s1 = 0"
      by (rule SDL_AppIterate_with_paused_rate [OF Cons.prems(1) s1(1)])
    show ?thesis by (rule Cons.IH [OF z rest s1(2)])
  next
    case (Paint x y)
    from Cons.prems(3) Paint obtain b s1 where s1: "Try_Paint_Point x y s = Some (b, s1)"
      "run_with step ins s1 = Some s'"
      by (auto split: option.splits)
    have z: "steps_per_second s1 = 0"
      using Try_Paint_Point_rate [OF s1(1)] Cons.prems(1) by simp
    show ?thesis by (rule Cons.IH [OF z rest s1(2)])
  next
    case (Line x0 y0 x1 y1)
    from Cons.prems(3) Line obtain s1 where s1: "Paint_Line x0 y0 x1 y1 s = Some s1"
      "run_with step ins s1 = Some s'"
      by (auto split: option.splits)
    have "paint_points (Paint_Line_visits x0 y0 x1 y1) s = Some s1"
      using s1(1) by (simp add: Paint_Line_paint_points)
    then have z: "steps_per_second s1 = 0"
      using paint_points_rate Cons.prems(1) by simp
    show ?thesis by (rule Cons.IH [OF z rest s1(2)])
  next
    case Step
    then show ?thesis using this_one by simp
  qed
qed

lemma run_with_paused:
  assumes "steps_per_second s = 0" "list_all keeps_paused ins"
  shows "run_with step ins s = run_with step' ins s"
  using assms
proof (induction ins arbitrary: s)
  case Nil
  then show ?case by simp
next
  case (Cons i ins)
  have rest: "list_all keeps_paused ins" and this_one: "keeps_paused i"
    using Cons.prems(2) by simp_all
  show ?case
  proof (cases i)
    case (Event e)
    obtain r s1 where e: "SDL_AppEvent e s = (r, s1)" by (cases "SDL_AppEvent e s")
    have z: "steps_per_second s1 = 0"
      using SDL_AppEvent_paused [OF Cons.prems(1), of e] this_one Event e by simp
    show ?thesis
      using Cons.IH [OF z rest] e Event by (cases r) simp_all
  next
    case (Frame now)
    have eq: "SDL_AppIterate_with step now s = SDL_AppIterate_with step' now s"
      by (simp add: SDL_AppIterate_with_paused [OF Cons.prems(1)])
    show ?thesis
    proof (cases "SDL_AppIterate_with step' now s")
      case None
      then show ?thesis using eq Frame by simp
    next
      case (Some s1)
      have z: "steps_per_second s1 = 0"
        by (rule SDL_AppIterate_with_paused_rate [OF Cons.prems(1) Some])
      show ?thesis
        using Cons.IH [OF z rest] eq Some Frame by simp
    qed
  next
    case (Paint x y)
    show ?thesis
    proof (cases "Try_Paint_Point x y s")
      case None
      then show ?thesis using Paint by simp
    next
      case (Some r)
      obtain b s1 where r: "r = (b, s1)" by (cases r)
      have z: "steps_per_second s1 = 0"
        using Try_Paint_Point_rate [of x y s b s1] Some r Cons.prems(1) by simp
      show ?thesis
        using Cons.IH [OF z rest] Some r Paint by simp
    qed
  next
    case (Line x0 y0 x1 y1)
    show ?thesis
    proof (cases "Paint_Line x0 y0 x1 y1 s")
      case None
      then show ?thesis using Line by simp
    next
      case (Some s1)
      have z: "steps_per_second s1 = 0"
        using paint_points_rate [of "Paint_Line_visits x0 y0 x1 y1" s s1] Some Cons.prems(1)
        by (simp add: Paint_Line_paint_points)
      show ?thesis
        using Cons.IH [OF z rest] Some Line by simp
    qed
  next
    case Step
    then show ?thesis using this_one by simp
  qed
qed

text \<open>
  Claim C9. From a state whose rate is 0, over any inputs that are frame ticks at any
  clock values, painting, and events other than a wheel turn that raises the rate, the
  run is the same for every step function, also for one that always fails: no frame
  tick has called \<^verbatim>\<open>Update_Simulation\<close>; and the rate is still 0 at the end. In every
  state a run from the start reaches, the rate is between 0 and
  \<open>MAX_STEPS_PER_SECOND\<close>, so the test \<^verbatim>\<open>steps_per_second > 0\<close> fails exactly when
  the rate is 0.
\<close>

theorem paused_never_steps:
  "(steps_per_second s = 0 \<and> list_all keeps_paused ins \<longrightarrow>
      run_with step ins s = run_with (\<lambda>s. None) ins s \<and>
      (\<exists>s'. run_with step ins s = Some s' \<and> steps_per_second s' = 0 \<or> run_with step ins s = None)) \<and>
   (\<exists>s'. run ins' (init_world t0) = Some s' \<and>
      0 \<le> steps_per_second s' \<and>
      steps_per_second s' \<le> real_of_int MAX_STEPS_PER_SECOND \<and>
      (\<not> steps_per_second s' > 0) = (steps_per_second s' = 0))"
proof -
  have a: "run_with step ins s = run_with (\<lambda>s. None) ins s \<and>
      (\<exists>s'. run_with step ins s = Some s' \<and> steps_per_second s' = 0 \<or> run_with step ins s = None)"
    if "steps_per_second s = 0" "list_all keeps_paused ins"
  proof (cases "run_with step ins s")
    case None
    then show ?thesis using run_with_paused [OF that, of step "\<lambda>s. None"] by simp
  next
    case (Some s')
    have "steps_per_second s' = 0" by (rule run_with_paused_rate [OF that Some])
    then show ?thesis using run_with_paused [OF that, of step "\<lambda>s. None"] Some by metis
  qed
  obtain s' where s': "run ins' (init_world t0) = Some s'" "world_inv s'"
    using run_init_inv [of ins' t0] by blast
  have "0 \<le> steps_per_second s'" "steps_per_second s' \<le> real_of_int MAX_STEPS_PER_SECOND"
    using s'(2) by (simp_all add: world_inv_def rate_inv_def)
  then have b: "\<exists>s'. run ins' (init_world t0) = Some s' \<and>
      0 \<le> steps_per_second s' \<and>
      steps_per_second s' \<le> real_of_int MAX_STEPS_PER_SECOND \<and>
      (\<not> steps_per_second s' > 0) = (steps_per_second s' = 0)"
    using s'(1) by auto
  show ?thesis using a b by blast
qed

theorem paused_never_steps_witness:
  "steps_per_second (init_world 0) = 0 \<and>
   list_all keeps_paused
     [Event (SDL_EVENT_MOUSE_BUTTON_DOWN 1 40 40), Frame 1000000, Event (SDL_EVENT_MOUSE_WHEEL (- 1)),
      Frame 2000000] \<and>
   run [Event (SDL_EVENT_MOUSE_BUTTON_DOWN 1 40 40), Frame 1000000, Event (SDL_EVENT_MOUSE_WHEEL (- 1)),
        Frame 2000000] (init_world 0) =
   run_with (\<lambda>s. None)
     [Event (SDL_EVENT_MOUSE_BUTTON_DOWN 1 40 40), Frame 1000000, Event (SDL_EVENT_MOUSE_WHEEL (- 1)),
      Frame 2000000] (init_world 0)"
proof -
  have r: "steps_per_second (init_world 0) = 0"
    by (simp add: init_world_def)
  have k: "list_all keeps_paused
     [Event (SDL_EVENT_MOUSE_BUTTON_DOWN 1 40 40), Frame 1000000, Event (SDL_EVENT_MOUSE_WHEEL (- 1)),
      Frame 2000000]"
    by simp
  show ?thesis
    using r k paused_never_steps [of "init_world 0"
        "[Event (SDL_EVENT_MOUSE_BUTTON_DOWN 1 40 40), Frame 1000000, Event (SDL_EVENT_MOUSE_WHEEL (- 1)),
          Frame 2000000]" Update_Simulation]
    unfolding run_def by blast
qed


end
